theory Spec2Isabelle
  imports Main "HOL-Library.Word"
begin

unbundle bit_operations_syntax

section \<open>The AES-GCM session of \<^verbatim>\<open>cipher-aes-gcm.cpp\<close>\<close>

subsection \<open>Data\<close>

text \<open>
  A \<^verbatim>\<open>std::string\<close> and an \<^verbatim>\<open>AES::BLOCK\<close>
  (\<^verbatim>\<open>std::array<std::uint8_t,16>\<close>) are both lists of bytes. A block always
  has sixteen elements in the program; the predicate \<open>blocks_ok\<close> below states
  that for the three block members of a session.
\<close>

type_synonym byte = "8 word"
type_synonym bytes = "byte list"

abbreviation BLOCK_SIZE :: nat where
  "BLOCK_SIZE \<equiv> 16"

datatype STATE = INIT | ENCRYPT | DECRYPT | FINAL

text \<open>The only exception of the file: \<^verbatim>\<open>std::runtime_error\<close>, thrown by \<^verbatim>\<open>update\<close>.\<close>

datatype error = runtime_error

text \<open>
  The two collaborators, \<^verbatim>\<open>cipher::AES\<close> (cipher-aes.hpp) and
  \<^verbatim>\<open>digest::GHASH\<close> (digest-ghash.hpp), are not part of the file. They are
  parameters: \<open>'a\<close> is the state of the AES object, \<open>'g\<close> the state of the GHASH
  object, and the record below holds the member functions the session calls.
  \<^verbatim>\<open>digest\<close> may change the accumulator, so it returns the new state as well.
\<close>

record ('a, 'g) collab =
  aes_set_encrypt_key128 :: "bytes \<Rightarrow> 'a \<Rightarrow> 'a"
  aes_set_encrypt_key192 :: "bytes \<Rightarrow> 'a \<Rightarrow> 'a"
  aes_set_encrypt_key256 :: "bytes \<Rightarrow> 'a \<Rightarrow> 'a"
  aes_encrypt :: "'a \<Rightarrow> bytes \<Rightarrow> bytes"
  ghash_set_key128 :: "bytes \<Rightarrow> 'g \<Rightarrow> 'g"
  ghash_set_authdata :: "bytes \<Rightarrow> 'g \<Rightarrow> 'g"
  ghash_add :: "bytes \<Rightarrow> 'g \<Rightarrow> 'g"
  ghash_digest :: "'g \<Rightarrow> bytes \<times> 'g"

text \<open>The data members of \<^verbatim>\<open>class AES_GCM\<close>, as the member functions use them.\<close>

record ('a, 'g) AES_GCM =
  ghash :: 'g
  aes :: 'a
  authdata :: bytes
  nonce :: bytes
  expected_tag :: bytes
  tag :: bytes
  state :: STATE
  pos :: nat
  counter :: bytes
  key_stream0 :: bytes
  key_stream :: bytes

subsection \<open>Member functions\<close>

definition clear :: "('a, 'g) AES_GCM \<Rightarrow> ('a, 'g) AES_GCM" where
  "clear s = s\<lparr>authdata := [], nonce := [], expected_tag := [], state := INIT, pos := 0\<rparr>"

text \<open>
  The constructor default-constructs the members and calls \<^verbatim>\<open>clear\<close>. The
  strings start empty; the three blocks are not initialised by the constructor, so
  their first contents are arguments here, as are the default-constructed
  collaborators.
\<close>

definition AES_GCM_new :: "'g \<Rightarrow> 'a \<Rightarrow> bytes \<Rightarrow> bytes \<Rightarrow> bytes \<Rightarrow> ('a, 'g) AES_GCM" where
  "AES_GCM_new g a c k0 k =
     clear \<lparr>ghash = g, aes = a, authdata = [], nonce = [], expected_tag = [], tag = [],
            state = INIT, pos = 0, counter = c, key_stream0 = k0, key_stream = k\<rparr>"

definition set_ghash_key :: "('a, 'g) collab \<Rightarrow> ('a, 'g) AES_GCM \<Rightarrow> ('a, 'g) AES_GCM" where
  "set_ghash_key C s =
     (let zero = replicate BLOCK_SIZE (0 :: byte);
          hash_key = aes_encrypt C (aes s) zero
      in s\<lparr>ghash := ghash_set_key128 C hash_key (ghash s)\<rparr>)"

definition set_key128 :: "('a, 'g) collab \<Rightarrow> bytes \<Rightarrow> ('a, 'g) AES_GCM \<Rightarrow> ('a, 'g) AES_GCM" where
  "set_key128 C key128 s = set_ghash_key C (s\<lparr>aes := aes_set_encrypt_key128 C key128 (aes s)\<rparr>)"

definition set_key192 :: "('a, 'g) collab \<Rightarrow> bytes \<Rightarrow> ('a, 'g) AES_GCM \<Rightarrow> ('a, 'g) AES_GCM" where
  "set_key192 C key192 s = set_ghash_key C (s\<lparr>aes := aes_set_encrypt_key192 C key192 (aes s)\<rparr>)"

definition set_key256 :: "('a, 'g) collab \<Rightarrow> bytes \<Rightarrow> ('a, 'g) AES_GCM \<Rightarrow> ('a, 'g) AES_GCM" where
  "set_key256 C key256 s = set_ghash_key C (s\<lparr>aes := aes_set_encrypt_key256 C key256 (aes s)\<rparr>)"

definition add_authdata :: "bytes \<Rightarrow> ('a, 'g) AES_GCM \<Rightarrow> ('a, 'g) AES_GCM" where
  "add_authdata a s = s\<lparr>authdata := a\<rparr>"

definition set_nonce :: "bytes \<Rightarrow> ('a, 'g) AES_GCM \<Rightarrow> ('a, 'g) AES_GCM" where
  "set_nonce a s = s\<lparr>nonce := a\<rparr>"

definition set_authtag :: "bytes \<Rightarrow> ('a, 'g) AES_GCM \<Rightarrow> ('a, 'g) AES_GCM" where
  "set_authtag a s = s\<lparr>expected_tag := a\<rparr>"

text \<open>
  \<^verbatim>\<open>increment_counter\<close>: the loop runs \<open>i\<close> from \<open>counter.size () - 1\<close> down to
  \<open>0\<close>. \<open>increment_loop n carry c\<close> is the loop with \<open>n\<close> iterations left, the next
  index being \<open>n - 1\<close>. Bytes are \<^verbatim>\<open>std::uint8_t\<close>: the addition wraps.
\<close>

fun increment_loop :: "nat \<Rightarrow> byte \<Rightarrow> bytes \<Rightarrow> bytes" where
  "increment_loop 0 carry c = c"
| "increment_loop (Suc i) carry c =
     (let c' = c[i := c ! i + carry];
          carry' = (if c' ! i < carry then 1 else 0)
      in increment_loop i carry' c')"

definition increment_counter :: "('a, 'g) collab \<Rightarrow> ('a, 'g) AES_GCM \<Rightarrow> ('a, 'g) AES_GCM" where
  "increment_counter C s =
     (let c = increment_loop BLOCK_SIZE 1 (counter s)
      in s\<lparr>counter := c, key_stream := aes_encrypt C (aes s) c\<rparr>)"

text \<open>
  \<^verbatim>\<open>std::copy (src.cbegin (), src.cend (), dst.begin ())\<close> overwrites the first
  \<open>src.size ()\<close> elements of the destination and leaves the rest. The two sources
  in the program are a nonce of twelve bytes and the digest, neither longer than the
  block they are copied into.
\<close>

definition std_copy :: "bytes \<Rightarrow> bytes \<Rightarrow> bytes" where
  "std_copy src dst = src @ drop (length src) dst"

text \<open>
  \<^verbatim>\<open>reset_counter\<close>, in two parts: \<open>initial_counter\<close> is its \<^verbatim>\<open>if\<close>/\<^verbatim>\<open>else\<close>,
  which leaves the initial counter block in \<open>counter\<close>; \<open>reset_counter\<close> then
  encrypts that block into \<open>key_stream0\<close> and increments the counter.
\<close>

definition initial_counter :: "('a, 'g) collab \<Rightarrow> ('a, 'g) AES_GCM \<Rightarrow> ('a, 'g) AES_GCM" where
  "initial_counter C s =
     (if length (nonce s) = 12 then
        s\<lparr>counter := (std_copy (nonce s) (counter s))[12 := 0, 13 := 0, 14 := 0, 15 := 1]\<rparr>
      else
        (let g1 = ghash_set_authdata C [] (ghash s);
             (h, g2) = ghash_digest C (ghash_add C (nonce s) g1)
         in s\<lparr>ghash := g2, counter := std_copy h (counter s)\<rparr>))"

definition reset_counter :: "('a, 'g) collab \<Rightarrow> ('a, 'g) AES_GCM \<Rightarrow> ('a, 'g) AES_GCM" where
  "reset_counter C s =
     (let s1 = initial_counter C s;
          s2 = s1\<lparr>key_stream0 := aes_encrypt C (aes s1) (counter s1)\<rparr>
      in increment_counter C s2)"

definition encrypt :: "('a, 'g) collab \<Rightarrow> ('a, 'g) AES_GCM \<Rightarrow> ('a, 'g) AES_GCM" where
  "encrypt C s =
     (let s1 = reset_counter C s;
          s2 = s1\<lparr>tag := []\<rparr>;
          s3 = s2\<lparr>ghash := ghash_set_authdata C (authdata s2) (ghash s2)\<rparr>
      in s3\<lparr>state := ENCRYPT\<rparr>)"

definition decrypt :: "('a, 'g) collab \<Rightarrow> ('a, 'g) AES_GCM \<Rightarrow> ('a, 'g) AES_GCM" where
  "decrypt C s = (encrypt C s)\<lparr>state := DECRYPT\<rparr>"

text \<open>
  \<^verbatim>\<open>authtag\<close>: the loop \<^verbatim>\<open>tag[i] = tag[i] ^ key_stream0[i]\<close> for
  \<open>i < tag.size ()\<close>. The function returns the tag and leaves the session changed.
  \<open>key_stream0\<close> has sixteen elements, and so has the digest by the interface of the
  accumulator (\<open>collab_ok\<close> below): the loop stays inside the block.
\<close>

definition mask_tag :: "bytes \<Rightarrow> bytes \<Rightarrow> bytes" where
  "mask_tag ks0 t = fold (\<lambda>i t. t[i := (t ! i) XOR (ks0 ! i)]) [0..<length t] t"

definition authtag :: "('a, 'g) collab \<Rightarrow> ('a, 'g) AES_GCM \<Rightarrow> bytes \<times> ('a, 'g) AES_GCM" where
  "authtag C s =
     (if state s = ENCRYPT \<or> state s = DECRYPT then
        (let (d, g) = ghash_digest C (ghash s);
             t = mask_tag (key_stream0 s) d;
             s' = s\<lparr>ghash := g, tag := t, state := FINAL\<rparr>
         in (t, s'))
      else (tag s, s))"

text \<open>
  \<^verbatim>\<open>good\<close>. Both sides of \<^verbatim>\<open>tag[i] == expected_c\<close> are \<^verbatim>\<open>int\<close>: a
  \<^verbatim>\<open>char\<close> of either string is promoted by \<open>char_int\<close> (a signed
  \<^verbatim>\<open>char\<close>; where \<^verbatim>\<open>char\<close> is unsigned the same bytes compare equal), and a
  position past the end of the expected tag gives \<open>0\<close>.
  \<open>good_loop t e i\<close> is the \<^verbatim>\<open>for\<close> loop from index \<open>i\<close> on: its condition
  \<open>i < tag.size ()\<close> is the only way out, the body has no \<^verbatim>\<open>break\<close> and no
  \<^verbatim>\<open>return\<close>. Beside \<open>ok\<close> the loop keeps the list of the comparisons
  \<^verbatim>\<open>tag[i] == expected_c\<close> it has evaluated: the position and the two \<^verbatim>\<open>int\<close>
  operands, in the order of evaluation. \<open>good\<close> returns \<open>ok\<close>, as the program
  does; \<open>good_steps\<close> returns that list for the same call.
\<close>

definition char_int :: "byte \<Rightarrow> int" where
  "char_int c = sint c"

definition expected_c :: "bytes \<Rightarrow> nat \<Rightarrow> int" where
  "expected_c e i = (if i \<ge> length e then 0 else char_int (e ! i))"

type_synonym comparison = "nat \<times> int \<times> int"

definition good_step ::
  "bytes \<Rightarrow> bytes \<Rightarrow> nat \<Rightarrow> bool \<times> comparison list \<Rightarrow> bool \<times> comparison list" where
  "good_step t e i acc =
     (let prev_ok = fst acc;
          not_ok = False
      in (if char_int (t ! i) = expected_c e i then prev_ok else not_ok,
          snd acc @ [(i, char_int (t ! i), expected_c e i)]))"

function good_loop ::
  "bytes \<Rightarrow> bytes \<Rightarrow> nat \<Rightarrow> bool \<times> comparison list \<Rightarrow> bool \<times> comparison list" where
  "good_loop t e i acc =
     (if i < length t then good_loop t e (i + 1) (good_step t e i acc) else acc)"
  by pat_completeness auto
termination
  by (relation "measure (\<lambda>(t, e, i, acc). length t - i)") auto

declare good_loop.simps [simp del]

definition good :: "('a, 'g) collab \<Rightarrow> ('a, 'g) AES_GCM \<Rightarrow> bool \<times> ('a, 'g) AES_GCM" where
  "good C s =
     (let s' = snd (authtag C s)
      in (fst (good_loop (tag s') (expected_tag s') 0 (True, [])), s'))"


text \<open>
  \<^verbatim>\<open>update\<close>. \<open>update_loop\<close> is the \<^verbatim>\<open>while (s < e)\<close> loop over the bytes of
  the range, with \<open>dst\<close> as accumulator. \<open>update_range\<close> is the iterator overload
  on the range \<open>[b, e)\<close> of a buffer, \<open>b\<close> and \<open>e\<close> being positions in it;
  \<open>update\<close> is the string overload. The exception is thrown before any member is
  touched, so the error result carries no session: the object is as it was.
\<close>

fun update_loop ::
  "('a, 'g) collab \<Rightarrow> bytes \<Rightarrow> bytes \<Rightarrow> ('a, 'g) AES_GCM \<Rightarrow> bytes \<times> ('a, 'g) AES_GCM" where
  "update_loop C [] dst s = (dst, s)"
| "update_loop C (x # xs) dst s =
     (let dst' = dst @ [x XOR (key_stream s ! pos s)];
          s1 = s\<lparr>pos := pos s + 1\<rparr>;
          s2 = (if pos s1 \<ge> BLOCK_SIZE then (increment_counter C s1)\<lparr>pos := 0\<rparr> else s1)
      in update_loop C xs dst' s2)"

definition update_range ::
  "('a, 'g) collab \<Rightarrow> bytes \<Rightarrow> nat \<Rightarrow> nat \<Rightarrow> ('a, 'g) AES_GCM
     \<Rightarrow> error + (bytes \<times> ('a, 'g) AES_GCM)" where
  "update_range C buf b e s =
     (if state s \<noteq> ENCRYPT \<and> state s \<noteq> DECRYPT then Inl runtime_error
      else if b \<ge> e then Inr ([], s)
      else
        (let src = drop b (take e buf);
             s1 = (if state s = DECRYPT then s\<lparr>ghash := ghash_add C src (ghash s)\<rparr> else s);
             (dst, s2) = update_loop C src [] s1;
             s3 = (if state s2 = ENCRYPT then s2\<lparr>ghash := ghash_add C dst (ghash s2)\<rparr> else s2)
         in Inr (dst, s3)))"

definition update ::
  "('a, 'g) collab \<Rightarrow> bytes \<Rightarrow> ('a, 'g) AES_GCM \<Rightarrow> error + (bytes \<times> ('a, 'g) AES_GCM)" where
  "update C src s = update_range C src 0 (length src) s"

subsection \<open>Callers\<close>

text \<open>
  A caller that feeds a message to \<^verbatim>\<open>update\<close> chunk by chunk and concatenates
  what the calls return; the first exception ends it.
\<close>

fun updates ::
  "('a, 'g) collab \<Rightarrow> bytes list \<Rightarrow> ('a, 'g) AES_GCM \<Rightarrow> error + (bytes \<times> ('a, 'g) AES_GCM)" where
  "updates C [] s = Inr ([], s)"
| "updates C (c # cs) s =
     (case update C c s of
        Inl e \<Rightarrow> Inl e
      | Inr (o1, s1) \<Rightarrow>
          (case updates C cs s1 of
             Inl e \<Rightarrow> Inl e
           | Inr (o2, s2) \<Rightarrow> Inr (o1 @ o2, s2)))"

text \<open>
  The two sessions of a round trip: \<^verbatim>\<open>encrypt (); update (P); authtag ()\<close>, which
  gives the ciphertext and the tag, and
  \<^verbatim>\<open>set_authtag (T); decrypt (); update (C); good ()\<close>, which gives the recovered
  bytes and the verdict. \<open>round_trip\<close> runs the second on the object the first
  has left.
\<close>

definition encrypt_session ::
  "('a, 'g) collab \<Rightarrow> bytes \<Rightarrow> ('a, 'g) AES_GCM \<Rightarrow> error + (bytes \<times> bytes \<times> ('a, 'g) AES_GCM)" where
  "encrypt_session C P s =
     (case update C P (encrypt C s) of
        Inl e \<Rightarrow> Inl e
      | Inr (c, s1) \<Rightarrow> (let (t, s2) = authtag C s1 in Inr (c, t, s2)))"

definition decrypt_session ::
  "('a, 'g) collab \<Rightarrow> bytes \<Rightarrow> bytes \<Rightarrow> ('a, 'g) AES_GCM
     \<Rightarrow> error + (bytes \<times> bool \<times> ('a, 'g) AES_GCM)" where
  "decrypt_session C c t s =
     (case update C c (decrypt C (set_authtag t s)) of
        Inl e \<Rightarrow> Inl e
      | Inr (p, s1) \<Rightarrow> (let (ok, s2) = good C s1 in Inr (p, ok, s2)))"

definition round_trip ::
  "('a, 'g) collab \<Rightarrow> bytes \<Rightarrow> ('a, 'g) AES_GCM \<Rightarrow> error + (bytes \<times> bool)" where
  "round_trip C P s =
     (case encrypt_session C P s of
        Inl e \<Rightarrow> Inl e
      | Inr (c, t, s1) \<Rightarrow>
          (case decrypt_session C c t s1 of
             Inl e \<Rightarrow> Inl e
           | Inr (p, ok, s2) \<Rightarrow> Inr (p, ok)))"

subsection \<open>Notions used in the statements\<close>

text \<open>The value of a byte string read as a big-endian number.\<close>

definition be_val :: "bytes \<Rightarrow> nat" where
  "be_val xs = foldl (\<lambda>a b. a * 256 + unat b) 0 xs"

text \<open>The counter increment alone, without the block encryption that follows it.\<close>

abbreviation inc :: "bytes \<Rightarrow> bytes" where
  "inc \<equiv> increment_loop BLOCK_SIZE 1"

text \<open>
  The second half of the body of the loop of \<^verbatim>\<open>update\<close>: the cursor moves on, and
  at the end of the block the counter is incremented and the cursor returns to \<open>0\<close>.
\<close>

definition advance :: "('a, 'g) collab \<Rightarrow> ('a, 'g) AES_GCM \<Rightarrow> ('a, 'g) AES_GCM" where
  "advance C s =
     (let s1 = s\<lparr>pos := pos s + 1\<rparr>
      in if pos s1 \<ge> BLOCK_SIZE then (increment_counter C s1)\<lparr>pos := 0\<rparr> else s1)"

text \<open>
  What the types of the program guarantee and lists do not: the three blocks have
  sixteen bytes, and the cursor, which \<^verbatim>\<open>clear\<close> sets to \<open>0\<close> and \<^verbatim>\<open>update\<close>
  wraps at the block size, stays inside a block.
\<close>

definition blocks_ok :: "('a, 'g) AES_GCM \<Rightarrow> bool" where
  "blocks_ok s \<longleftrightarrow>
     length (counter s) = BLOCK_SIZE \<and> length (key_stream0 s) = BLOCK_SIZE \<and>
     length (key_stream s) = BLOCK_SIZE \<and> pos s < BLOCK_SIZE"

text \<open>
  Modelled from the spec: the result sizes of \<^verbatim>\<open>AES::encrypt\<close> (cipher-aes.hpp) and
  \<^verbatim>\<open>GHASH::digest\<close> (digest-ghash.hpp), neither of which is among the sources.
  \<^verbatim>\<open>encrypt\<close> writes a block of sixteen bytes, and \<^verbatim>\<open>digest\<close> returns a string of
  sixteen bytes.
\<close>

definition collab_ok :: "('a, 'g) collab \<Rightarrow> bool" where
  "collab_ok C \<longleftrightarrow>
     (\<forall>a b. length b = BLOCK_SIZE \<longrightarrow> length (aes_encrypt C a b) = BLOCK_SIZE) \<and>
     (\<forall>g. length (fst (ghash_digest C g)) = BLOCK_SIZE)"

text \<open>
  Modelled from the spec: \<^verbatim>\<open>GHASH::add\<close> (digest-ghash.hpp, not among the sources)
  folds bytes into the running digest, so adding two strings in turn adds their
  concatenation.
\<close>

definition ghash_add_append :: "('a, 'g) collab \<Rightarrow> bool" where
  "ghash_add_append C \<longleftrightarrow> (\<forall>g a b. ghash_add C (a @ b) g = ghash_add C b (ghash_add C a g))"

text \<open>
  A session in the middle of a message that began at the counter block \<open>J0\<close> and
  whose counter has been incremented \<open>m\<close> times since: the mask block is the
  encryption of \<open>J0\<close>, and the current keystream block that of the current counter.
\<close>

definition in_message :: "('a, 'g) collab \<Rightarrow> bytes \<Rightarrow> nat \<Rightarrow> ('a, 'g) AES_GCM \<Rightarrow> bool" where
  "in_message C J0 m s \<longleftrightarrow>
     blocks_ok s \<and> length J0 = BLOCK_SIZE \<and>
     (state s = ENCRYPT \<or> state s = DECRYPT) \<and>
     key_stream0 s = aes_encrypt C (aes s) J0 \<and>
     counter s = (inc ^^ m) J0 \<and>
     key_stream s = aes_encrypt C (aes s) (counter s)"

subsection \<open>A small instance of the collaborators\<close>

text \<open>
  Stand-ins with the interfaces of the two collaborators, on which the statements
  below are evaluated at concrete inputs. The block transform adds the key byte and
  the position to each byte; the accumulator keeps its key, its associated data and
  the bytes added, and its digest repeats their sum.
\<close>

definition demo_encrypt :: "byte \<Rightarrow> bytes \<Rightarrow> bytes" where
  "demo_encrypt k b = map (\<lambda>(i, x). x + k + i) (zip [1, 2, 3, 4, 5, 6, 7, 8, 9, 10, 11, 12, 13, 14, 15, 16] b)"

definition demo_digest :: "bytes \<times> bytes \<times> bytes \<Rightarrow> bytes \<times> (bytes \<times> bytes \<times> bytes)" where
  "demo_digest g =
     (case g of (k, a, d) \<Rightarrow> (replicate BLOCK_SIZE (sum_list k + sum_list a + sum_list d), g))"

definition demo :: "(byte, bytes \<times> bytes \<times> bytes) collab" where
  "demo =
     \<lparr>aes_set_encrypt_key128 = (\<lambda>key a. sum_list key),
      aes_set_encrypt_key192 = (\<lambda>key a. sum_list key),
      aes_set_encrypt_key256 = (\<lambda>key a. sum_list key),
      aes_encrypt = demo_encrypt,
      ghash_set_key128 = (\<lambda>key g. (key, [], [])),
      ghash_set_authdata = (\<lambda>a g. (fst g, a, [])),
      ghash_add = (\<lambda>b g. (fst g, fst (snd g), snd (snd g) @ b)),
      ghash_digest = demo_digest\<rparr>"

text \<open>A newly constructed session on the stand-ins, with the key \<open>7\<close> and a nonce of twelve bytes.\<close>

definition demo_new :: "(byte, bytes \<times> bytes \<times> bytes) AES_GCM" where
  "demo_new = AES_GCM_new ([], [], []) 0 (replicate BLOCK_SIZE 0) (replicate BLOCK_SIZE 0) (replicate BLOCK_SIZE 0)"

definition demo_keyed :: "(byte, bytes \<times> bytes \<times> bytes) AES_GCM" where
  "demo_keyed =
     set_nonce [1, 2, 3, 4, 5, 6, 7, 8, 9, 10, 11, 12]
       (set_key128 demo [7, 0, 0, 0, 0, 0, 0, 0, 0, 0, 0, 0, 0, 0, 0, 0] demo_new)"

section \<open>Properties\<close>

subsection \<open>The counter as a big-endian number\<close>

lemma be_val_Nil: "be_val [] = 0"
  by (simp add: be_val_def)

lemma be_val_snoc: "be_val (xs @ [x]) = be_val xs * 256 + unat x"
  by (simp add: be_val_def)

lemma unat_byte_less: "unat (x :: byte) < 256"
  using unsigned_less[of x, where 'a=nat] by simp

lemma be_val_bound: "be_val xs < 256 ^ length xs"
proof (induction xs rule: rev_induct)
  case Nil
  show ?case by (simp add: be_val_Nil)
next
  case (snoc x xs)
  have "unat x < 256" by (rule unat_byte_less)
  with snoc have "be_val xs * 256 + unat x < (be_val xs + 1) * 256" by simp
  also have "\<dots> \<le> 256 ^ length xs * 256"
    using snoc by (simp add: Suc_leI del: mult_Suc)
  finally show ?case by (simp add: be_val_snoc)
qed

lemma be_val_inj: "length xs = length ys \<Longrightarrow> be_val xs = be_val ys \<Longrightarrow> xs = ys"
proof (induction xs arbitrary: ys rule: rev_induct)
  case Nil
  then show ?case by simp
next
  case (snoc x xs)
  then obtain y ys' where ys: "ys = ys' @ [y]"
    by (cases ys rule: rev_cases) auto
  from snoc.prems have eq: "be_val xs * 256 + unat x = be_val ys' * 256 + unat y"
    by (simp add: ys be_val_snoc)
  have bx: "unat x < 256" and bY: "unat y < 256" by (rule unat_byte_less)+
  have "(be_val xs * 256 + unat x) div 256 = be_val xs"
    and "(be_val xs * 256 + unat x) mod 256 = unat x"
    and "(be_val ys' * 256 + unat y) div 256 = be_val ys'"
    and "(be_val ys' * 256 + unat y) mod 256 = unat y"
    using bx bY by simp_all
  with eq have "be_val xs = be_val ys'" "unat x = unat y" by metis+
  with snoc.IH[of ys'] snoc.prems show ?case by (simp add: ys word_eq_iff_unsigned[where ?'a=nat])
qed

subsection \<open>The increment loop\<close>

lemma increment_loop_length: "length (increment_loop i carry c) = length c"
  by (induction i arbitrary: carry c) (simp_all add: Let_def)

lemma byte_add_carry:
  fixes b carry :: byte
  assumes "unat carry \<le> 1"
  shows "unat b + unat carry = 256 * (if b + carry < carry then 1 else 0) + unat (b + carry)"
proof -
  have b: "unat b < 256" by (rule unat_byte_less)
  have s: "unat (b + carry) = (unat b + unat carry) mod 256"
    by (simp add: unat_word_ariths)
  have l: "(b + carry < carry) = (unat (b + carry) < unat carry)"
    by (simp add: word_less_nat_alt)
  show ?thesis using assms b unfolding l s by (auto simp: mod_if)
qed

lemma mod_step:
  fixes A r k' :: nat
  assumes "r < 256"
  shows "(256 * (A + k') + r) mod (256 * 256 ^ i) = 256 * ((A + k') mod 256 ^ i) + r"
proof -
  have d: "(256 * (A + k') + r) div 256 = A + k'" using assms by arith
  have "(256 * (A + k') + r) mod 256 = r mod 256" by (rule mod_mult_self4)
  then have m: "(256 * (A + k') + r) mod 256 = r" using assms by (simp only: mod_less)
  have "(256 * (A + k') + r) mod (256 * 256 ^ i)
      = 256 * ((256 * (A + k') + r) div 256 mod 256 ^ i) + (256 * (A + k') + r) mod 256"
    by (rule mod_mult2_eq)
  then show ?thesis by (simp only: d m)
qed

lemma increment_loop_val:
  "i \<le> length c \<Longrightarrow> unat carry \<le> 1 \<Longrightarrow>
     be_val (take i (increment_loop i carry c)) = (be_val (take i c) + unat carry) mod 256 ^ i
     \<and> drop i (increment_loop i carry c) = drop i c"
proof (induction i arbitrary: carry c)
  case 0
  show ?case by (simp add: be_val_Nil)
next
  case (Suc i)
  define b where "b = c ! i + carry"
  define c' where "c' = c[i := b]"
  define carry' :: byte where "carry' = (if b < carry then 1 else 0)"
  define res where "res = increment_loop i carry' c'"
  have il: "i < length c" using Suc.prems by simp
  have res: "increment_loop (Suc i) carry c = res"
    by (simp add: res_def carry'_def c'_def b_def Let_def il)
  have k: "unat carry' \<le> 1" by (simp add: carry'_def)
  have ih: "be_val (take i res) = (be_val (take i c') + unat carry') mod 256 ^ i"
    and dr: "drop i res = drop i c'"
    using Suc.IH[of c' carry'] il k by (simp_all add: res_def c'_def)
  have lres: "length res = length c" by (simp add: res_def increment_loop_length c'_def)
  have dc': "drop i c' = b # drop (Suc i) c"
    using il by (simp add: c'_def drop_update_cancel Cons_nth_drop_Suc[symmetric] upd_conv_take_nth_drop)
  have nth: "res ! i = b"
    using dr dc' il lres by (metis nth_via_drop)
  have d2: "drop (Suc i) res = drop (Suc i) c"
    using dr dc' by (metis drop_Suc list.sel(3) tl_drop)
  have tk: "take (Suc i) res = take i res @ [b]"
    using il lres nth by (simp add: take_Suc_conv_app_nth)
  have tc: "take (Suc i) c = take i c @ [c ! i]"
    using il by (simp add: take_Suc_conv_app_nth)
  have tc': "take i c' = take i c" by (simp add: c'_def)
  have carry: "unat (c ! i) + unat carry = 256 * unat carry' + unat b"
    using byte_add_carry[OF Suc.prems(2), of "c ! i"] by (simp add: carry'_def b_def)
  have "be_val (take (Suc i) res) = ((be_val (take i c) + unat carry') mod 256 ^ i) * 256 + unat b"
    by (simp add: tk be_val_snoc ih tc')
  also have "\<dots> = (256 * (be_val (take i c) + unat carry') + unat b) mod (256 * 256 ^ i)"
    using mod_step[OF unat_byte_less, of "be_val (take i c)" "unat carry'" b i] by simp
  also have "256 * (be_val (take i c) + unat carry') + unat b
      = be_val (take (Suc i) c) + unat carry"
    using carry by (simp add: tc be_val_snoc)
  finally have "be_val (take (Suc i) res) = (be_val (take (Suc i) c) + unat carry) mod 256 ^ Suc i"
    by simp
  with d2 show ?case unfolding res by simp
qed

lemma increment_loop_be_val:
  assumes "length c = n"
  shows "be_val (increment_loop n 1 c) = (be_val c + 1) mod 256 ^ n"
  using increment_loop_val[of n c 1] assms by (simp add: increment_loop_length)

subsection \<open>The stand-ins\<close>

lemma demo_sel:
  "aes_encrypt demo = demo_encrypt"
  "ghash_set_authdata demo = (\<lambda>a g. (fst g, a, []))"
  "ghash_add demo = (\<lambda>b g. (fst g, fst (snd g), snd (snd g) @ b))"
  "ghash_digest demo = demo_digest"
  by (simp_all add: demo_def)

lemma demo_collab_ok: "collab_ok demo"
  by (auto simp add: collab_ok_def demo_def demo_digest_def demo_encrypt_def split: prod.splits)

lemma demo_keyed_val:
  "demo_keyed =
     \<lparr>ghash = ([8, 9, 10, 11, 12, 13, 14, 15, 16, 17, 18, 19, 20, 21, 22, 23], [], []),
      aes = 7, authdata = [], nonce = [1, 2, 3, 4, 5, 6, 7, 8, 9, 10, 11, 12],
      expected_tag = [], tag = [], state = INIT, pos = 0,
      counter = [0, 0, 0, 0, 0, 0, 0, 0, 0, 0, 0, 0, 0, 0, 0, 0],
      key_stream0 = [0, 0, 0, 0, 0, 0, 0, 0, 0, 0, 0, 0, 0, 0, 0, 0],
      key_stream = [0, 0, 0, 0, 0, 0, 0, 0, 0, 0, 0, 0, 0, 0, 0, 0]\<rparr>"
  by code_simp

lemma demo_encrypt_val:
  "encrypt demo demo_keyed =
     \<lparr>ghash = ([8, 9, 10, 11, 12, 13, 14, 15, 16, 17, 18, 19, 20, 21, 22, 23], [], []),
      aes = 7, authdata = [], nonce = [1, 2, 3, 4, 5, 6, 7, 8, 9, 10, 11, 12],
      expected_tag = [], tag = [], state = ENCRYPT, pos = 0,
      counter = [1, 2, 3, 4, 5, 6, 7, 8, 9, 10, 11, 12, 0, 0, 0, 2],
      key_stream0 = [9, 11, 13, 15, 17, 19, 21, 23, 25, 27, 29, 31, 20, 21, 22, 24],
      key_stream = [9, 11, 13, 15, 17, 19, 21, 23, 25, 27, 29, 31, 20, 21, 22, 25]\<rparr>"
  unfolding demo_keyed_val by code_simp


lemma demo_keyed_blocks: "blocks_ok demo_keyed"
  unfolding demo_keyed_val by (simp add: blocks_ok_def)

subsection \<open>Counter increment\<close>

lemma inc_all_ones: "inc (replicate BLOCK_SIZE 255) = replicate BLOCK_SIZE 0"
  by code_simp

lemma inc_carry_example:
  "inc [0, 0, 0, 0, 0, 0, 0, 0, 0, 0, 0, 0, 0, 7, 255, 255]
     = [0, 0, 0, 0, 0, 0, 0, 0, 0, 0, 0, 0, 0, 8, 0, 0]"
  by code_simp

lemma counter_increment_counter [simp]: "counter (increment_counter C s) = inc (counter s)"
  by (simp add: increment_counter_def Let_def)

lemma inc_be_val: "length c = BLOCK_SIZE \<Longrightarrow> be_val (inc c) = (be_val c + 1) mod 2 ^ 128"
proof -
  assume l: "length c = BLOCK_SIZE"
  have "(256 :: nat) ^ 16 = 2 ^ 128" by simp
  with increment_loop_be_val[OF l] show ?thesis by simp
qed

text \<open>
  Claim C7. Applied to the counter of sixteen bytes \<open>0xFF\<close>, \<^verbatim>\<open>increment_counter\<close>
  leaves the counter of sixteen bytes \<open>0x00\<close>. In general it adds one modulo
  \<open>2 ^ 128\<close> to the counter read as a big-endian number: the carry goes from the
  last byte towards the first, as in the second conjunct.
\<close>

theorem increment_counter_adds_one:
  "counter (increment_counter C (s\<lparr>counter := replicate BLOCK_SIZE 255\<rparr>)) = replicate BLOCK_SIZE 0
   \<and> counter (increment_counter C (s\<lparr>counter := [0, 0, 0, 0, 0, 0, 0, 0, 0, 0, 0, 0, 0, 7, 255, 255]\<rparr>))
       = [0, 0, 0, 0, 0, 0, 0, 0, 0, 0, 0, 0, 0, 8, 0, 0]
   \<and> (length (counter s) = BLOCK_SIZE \<longrightarrow>
        length (counter (increment_counter C s)) = BLOCK_SIZE \<and>
        be_val (counter (increment_counter C s)) = (be_val (counter s) + 1) mod 2 ^ 128)"
  by (simp add: inc_all_ones inc_carry_example inc_be_val increment_loop_length)

theorem increment_counter_adds_one_witness:
  "length (counter demo_keyed) = BLOCK_SIZE \<and>
   be_val (counter (increment_counter demo demo_keyed)) = (be_val (counter demo_keyed) + 1) mod 2 ^ 128"
  using increment_counter_adds_one[of demo demo_keyed] demo_keyed_blocks
  by (simp add: blocks_ok_def)

subsection \<open>The initial counter block\<close>

lemma std_copy_full: "length src = length dst \<Longrightarrow> std_copy src dst = src"
  by (simp add: std_copy_def)

lemma length4E: "length xs = Suc (Suc (Suc (Suc 0))) \<Longrightarrow> \<exists>w x y z. xs = [w, x, y, z]"
  by (auto simp: length_Suc_conv)

lemma std_copy_nonce12:
  assumes "length n = 12" "length c = BLOCK_SIZE"
  shows "(std_copy n c)[12 := 0, 13 := 0, 14 := 0, 15 := 1] = n @ [0, 0, 0, 1]"
proof -
  have "length (drop 12 c) = Suc (Suc (Suc (Suc 0)))" using assms by simp
  then obtain w x y z where d: "drop 12 c = [w, x, y, z]"
    using length4E by blast
  show ?thesis
    using assms by (simp add: std_copy_def d list_update_append)
qed

lemma initial_counter_frame [simp]:
  "aes (initial_counter C s) = aes s"
  "authdata (initial_counter C s) = authdata s"
  "nonce (initial_counter C s) = nonce s"
  "expected_tag (initial_counter C s) = expected_tag s"
  "tag (initial_counter C s) = tag s"
  "state (initial_counter C s) = state s"
  "pos (initial_counter C s) = pos s"
  "key_stream0 (initial_counter C s) = key_stream0 s"
  "key_stream (initial_counter C s) = key_stream s"
  by (simp_all add: initial_counter_def Let_def case_prod_beta)

lemma counter_initial_counter:
  assumes "length (counter s) = BLOCK_SIZE" "collab_ok C"
  shows "counter (initial_counter C s) =
     (if length (nonce s) = 12 then nonce s @ [0, 0, 0, 1]
      else fst (ghash_digest C (ghash_add C (nonce s) (ghash_set_authdata C [] (ghash s)))))"
proof (cases "length (nonce s) = 12")
  case True
  then show ?thesis
    using assms(1) by (simp add: initial_counter_def std_copy_nonce12)
next
  case False
  have "length (fst (ghash_digest C (ghash_add C (nonce s) (ghash_set_authdata C [] (ghash s))))) = length (counter s)"
    using assms by (simp add: collab_ok_def)
  then show ?thesis
    using False by (simp add: initial_counter_def Let_def std_copy_full case_prod_beta)
qed

lemma length_initial_counter:
  assumes "length (counter s) = BLOCK_SIZE" "collab_ok C"
  shows "length (counter (initial_counter C s)) = BLOCK_SIZE"
  using assms by (simp add: counter_initial_counter collab_ok_def)

lemma reset_counter_fields:
  "key_stream0 (reset_counter C s) = aes_encrypt C (aes s) (counter (initial_counter C s))"
  "counter (reset_counter C s) = inc (counter (initial_counter C s))"
  "key_stream (reset_counter C s) = aes_encrypt C (aes s) (inc (counter (initial_counter C s)))"
  "aes (reset_counter C s) = aes s"
  "pos (reset_counter C s) = pos s"
  "authdata (reset_counter C s) = authdata s"
  "nonce (reset_counter C s) = nonce s"
  "expected_tag (reset_counter C s) = expected_tag s"
  by (simp_all add: reset_counter_def increment_counter_def Let_def)

lemma encrypt_fields:
  "key_stream0 (encrypt C s) = aes_encrypt C (aes s) (counter (initial_counter C s))"
  "counter (encrypt C s) = inc (counter (initial_counter C s))"
  "key_stream (encrypt C s) = aes_encrypt C (aes s) (inc (counter (initial_counter C s)))"
  "aes (encrypt C s) = aes s"
  "pos (encrypt C s) = pos s"
  "authdata (encrypt C s) = authdata s"
  "nonce (encrypt C s) = nonce s"
  "expected_tag (encrypt C s) = expected_tag s"
  "tag (encrypt C s) = []"
  "state (encrypt C s) = ENCRYPT"
  by (simp_all add: encrypt_def reset_counter_fields Let_def)

lemma decrypt_fields:
  "key_stream0 (decrypt C s) = key_stream0 (encrypt C s)"
  "counter (decrypt C s) = counter (encrypt C s)"
  "key_stream (decrypt C s) = key_stream (encrypt C s)"
  "aes (decrypt C s) = aes s"
  "pos (decrypt C s) = pos s"
  "ghash (decrypt C s) = ghash (encrypt C s)"
  "authdata (decrypt C s) = authdata s"
  "nonce (decrypt C s) = nonce s"
  "expected_tag (decrypt C s) = expected_tag s"
  "tag (decrypt C s) = []"
  "state (decrypt C s) = DECRYPT"
  by (simp_all add: decrypt_def encrypt_fields)

text \<open>
  Claim C2. At the entry of \<^verbatim>\<open>encrypt\<close> and of \<^verbatim>\<open>decrypt\<close> the initial counter
  block \<open>J0\<close> comes from the nonce that is set: a nonce of twelve bytes gives the
  nonce followed by \<open>0x00 0x00 0x00 0x01\<close>, any other length gives the digest of
  the accumulator after \<^verbatim>\<open>set_authdata ("")\<close> and \<^verbatim>\<open>add (nonce)\<close>. \<open>J0\<close> is what
  \<^verbatim>\<open>reset_counter\<close> holds in \<open>counter\<close> after its \<^verbatim>\<open>if\<close>/\<^verbatim>\<open>else\<close>; the mask block
  is its encryption, and the counter the entry leaves is \<open>J0 + 1\<close>.
\<close>

theorem initial_counter_block:
  assumes "length (counter s) = BLOCK_SIZE" and "collab_ok C"
  shows
    "(let J0 = (if length (nonce s) = 12 then nonce s @ [0, 0, 0, 1]
                else fst (ghash_digest C
                            (ghash_add C (nonce s) (ghash_set_authdata C [] (ghash s)))))
      in counter (initial_counter C s) = J0 \<and> length J0 = BLOCK_SIZE \<and>
         key_stream0 (encrypt C s) = aes_encrypt C (aes s) J0 \<and>
         counter (encrypt C s) = inc J0 \<and>
         be_val (counter (encrypt C s)) = (be_val J0 + 1) mod 2 ^ 128 \<and>
         key_stream0 (decrypt C s) = aes_encrypt C (aes s) J0 \<and>
         counter (decrypt C s) = inc J0 \<and>
         be_val (counter (decrypt C s)) = (be_val J0 + 1) mod 2 ^ 128)"
proof -
  note c = counter_initial_counter[OF assms]
  note l = length_initial_counter[OF assms]
  show ?thesis
    unfolding Let_def c[symmetric]
    by (simp add: encrypt_fields decrypt_fields l inc_be_val)
qed

theorem initial_counter_block_witness:
  "counter (initial_counter demo demo_keyed) = [1, 2, 3, 4, 5, 6, 7, 8, 9, 10, 11, 12, 0, 0, 0, 1] \<and>
   counter (initial_counter demo (set_nonce [5] demo_keyed)) = replicate BLOCK_SIZE 253"
proof -
  have b: "length (counter demo_keyed) = BLOCK_SIZE"
    and b': "length (counter (set_nonce [5] demo_keyed)) = BLOCK_SIZE"
    using demo_keyed_blocks by (simp_all add: blocks_ok_def set_nonce_def)
  have n: "nonce demo_keyed = [1, 2, 3, 4, 5, 6, 7, 8, 9, 10, 11, 12]"
    by (simp add: demo_keyed_val)
  have g: "ghash demo_keyed = ([8, 9, 10, 11, 12, 13, 14, 15, 16, 17, 18, 19, 20, 21, 22, 23], [], [])"
    by (simp add: demo_keyed_val)
  show ?thesis
    using initial_counter_block[OF b demo_collab_ok] initial_counter_block[OF b' demo_collab_ok]
    by (simp add: Let_def n g set_nonce_def demo_sel demo_digest_def)
qed

subsection \<open>The tag\<close>

lemma authtag_inactive:
  "state s \<noteq> ENCRYPT \<Longrightarrow> state s \<noteq> DECRYPT \<Longrightarrow> authtag C s = (tag s, s)"
  by (simp add: authtag_def)

lemma authtag_active:
  "state s = ENCRYPT \<or> state s = DECRYPT \<Longrightarrow>
     authtag C s =
       (mask_tag (key_stream0 s) (fst (ghash_digest C (ghash s))),
        s\<lparr>ghash := snd (ghash_digest C (ghash s)),
          tag := mask_tag (key_stream0 s) (fst (ghash_digest C (ghash s))),
          state := FINAL\<rparr>)"
  by (auto simp add: authtag_def Let_def case_prod_beta)

lemma authtag_fields:
  "tag (snd (authtag C s)) = fst (authtag C s)"
  "expected_tag (snd (authtag C s)) = expected_tag s"
  "state (snd (authtag C s)) \<noteq> ENCRYPT"
  "state (snd (authtag C s)) \<noteq> DECRYPT"
  "key_stream0 (snd (authtag C s)) = key_stream0 s"
  "key_stream (snd (authtag C s)) = key_stream s"
  "counter (snd (authtag C s)) = counter s"
  "pos (snd (authtag C s)) = pos s"
  "aes (snd (authtag C s)) = aes s"
  "nonce (snd (authtag C s)) = nonce s"
  "authdata (snd (authtag C s)) = authdata s"
  by (auto simp add: authtag_def Let_def case_prod_beta)

lemma update_inactive:
  "state s \<noteq> ENCRYPT \<Longrightarrow> state s \<noteq> DECRYPT \<Longrightarrow> update_range C buf b e s = Inl runtime_error"
  by (simp add: update_range_def)

lemma clear_fields:
  "state (clear s) = INIT" "nonce (clear s) = []" "authdata (clear s) = []"
  "expected_tag (clear s) = []" "pos (clear s) = 0" "tag (clear s) = tag s"
  "counter (clear s) = counter s" "key_stream0 (clear s) = key_stream0 s"
  "key_stream (clear s) = key_stream s" "ghash (clear s) = ghash s" "aes (clear s) = aes s"
  by (simp_all add: clear_def)

lemma new_fields:
  "state (AES_GCM_new g a c k0 k) = INIT" "tag (AES_GCM_new g a c k0 k) = []"
  "nonce (AES_GCM_new g a c k0 k) = []" "authdata (AES_GCM_new g a c k0 k) = []"
  "expected_tag (AES_GCM_new g a c k0 k) = []" "pos (AES_GCM_new g a c k0 k) = 0"
  by (simp_all add: AES_GCM_new_def clear_def)

text \<open>
  Claim C6. In a session whose state is neither \<open>ENCRYPT\<close> nor \<open>DECRYPT\<close>, every
  call of \<^verbatim>\<open>update\<close> throws before it reads a byte or touches a member: the result
  is the exception alone. That covers the state after \<^verbatim>\<open>authtag\<close>, whatever the
  state before it was, the state after \<^verbatim>\<open>clear\<close>, and a new object.
\<close>

theorem update_outside_message_throws:
  "(state s \<noteq> ENCRYPT \<and> state s \<noteq> DECRYPT \<longrightarrow>
      update C src s = Inl runtime_error \<and> update_range C buf b e s = Inl runtime_error)
   \<and> update C src (snd (authtag C s)) = Inl runtime_error
   \<and> update C src (clear s) = Inl runtime_error
   \<and> update C src (AES_GCM_new g a c k0 k) = Inl runtime_error"
  by (simp add: update_def update_inactive authtag_fields clear_fields new_fields)

theorem update_outside_message_throws_witness:
  "state demo_keyed = INIT \<and>
   update demo [65, 66] demo_keyed = Inl runtime_error \<and>
   update demo [65, 66] (snd (authtag demo (encrypt demo demo_keyed))) = Inl runtime_error"
  using update_outside_message_throws[of demo_keyed demo "[65, 66]" "[]" 0 0 "([], [], [])" 0 "[]" "[]" "[]"]
    update_outside_message_throws[of "encrypt demo demo_keyed" demo "[65, 66]" "[]" 0 0 "([], [], [])" 0 "[]" "[]" "[]"]
  by (simp add: demo_keyed_val)

text \<open>
  Claim C8, as amended. \<^verbatim>\<open>clear\<close> sets the state to \<open>INIT\<close> and the cursor to \<open>0\<close>
  and empties the nonce, the associated data and the expected tag. It leaves the
  computed tag as it was, and with it the counter, the two keystream blocks and the
  collaborators; \<^verbatim>\<open>encrypt\<close> is what empties the computed tag.
\<close>

theorem clear_resets_inputs:
  "state (clear s) = INIT \<and> nonce (clear s) = [] \<and> authdata (clear s) = [] \<and>
   expected_tag (clear s) = [] \<and> pos (clear s) = 0 \<and>
   tag (clear s) = tag s \<and> counter (clear s) = counter s \<and>
   key_stream0 (clear s) = key_stream0 s \<and> key_stream (clear s) = key_stream s \<and>
   ghash (clear s) = ghash s \<and> aes (clear s) = aes s"
  by (simp add: clear_fields)

lemma demo_authtag_val:
  "fst (authtag demo (encrypt demo demo_keyed)) =
     [241, 243, 245, 247, 233, 235, 237, 239, 225, 227, 229, 231, 236, 237, 238, 224]"
  unfolding demo_encrypt_val by code_simp

text \<open>
  Claim C8 as stated fails: after a finished message \<^verbatim>\<open>clear\<close> leaves the sixteen
  bytes of the tag in place, where a new object has the empty string.
\<close>

theorem clear_keeps_tag_counterexample:
  "tag (clear (snd (authtag demo (encrypt demo demo_keyed)))) =
     [241, 243, 245, 247, 233, 235, 237, 239, 225, 227, 229, 231, 236, 237, 238, 224]
   \<and> tag (clear (snd (authtag demo (encrypt demo demo_keyed)))) \<noteq> tag demo_new"
  by (simp add: clear_fields authtag_fields demo_authtag_val demo_new_def new_fields)

text \<open>
  Claim C10. In state \<open>INIT\<close> \<^verbatim>\<open>authtag\<close> changes no member and returns the stored
  tag. \<^verbatim>\<open>clear\<close> does not erase that string, so after \<^verbatim>\<open>clear\<close> the call returns
  the tag the session held before, the finalized tag of the previous message if
  there was one; on a new object it returns the empty string.
\<close>

theorem authtag_in_INIT:
  "(state s = INIT \<longrightarrow> authtag C s = (tag s, s))
   \<and> authtag C (clear s) = (tag s, clear s)
   \<and> authtag C (clear (snd (authtag C s))) = (fst (authtag C s), clear (snd (authtag C s)))
   \<and> authtag C (AES_GCM_new g a c k0 k) = ([], AES_GCM_new g a c k0 k)"
  by (simp add: authtag_inactive clear_fields new_fields authtag_fields)

theorem authtag_in_INIT_witness:
  "state demo_keyed = INIT \<and> authtag demo demo_keyed = ([], demo_keyed) \<and>
   fst (authtag demo (clear (snd (authtag demo (encrypt demo demo_keyed))))) =
     [241, 243, 245, 247, 233, 235, 237, 239, 225, 227, 229, 231, 236, 237, 238, 224]"
  using authtag_in_INIT[of demo_keyed demo "([], [], [])" 0 "[]" "[]" "[]"]
    authtag_in_INIT[of "encrypt demo demo_keyed" demo "([], [], [])" 0 "[]" "[]" "[]"]
  by (simp add: demo_keyed_val demo_authtag_val[unfolded demo_keyed_val])

subsection \<open>The comparison loop\<close>

lemma good_loop_from:
  "good_loop t e i (ok, tr) =
     ((ok \<and> (\<forall>j. i \<le> j \<and> j < length t \<longrightarrow> char_int (t ! j) = expected_c e j)),
      tr @ map (\<lambda>j. (j, char_int (t ! j), expected_c e j)) [i..<length t])"
proof (induction "length t - i" arbitrary: i ok tr)
  case 0
  then have "\<not> i < length t" by simp
  then show ?case by (simp add: good_loop.simps[of t e i])
next
  case (Suc n)
  then have l: "i < length t" and n: "n = length t - Suc i" by simp_all
  have u: "[i..<length t] = i # [Suc i..<length t]"
    using l by (rule upt_conv_Cons)
  have a: "(\<forall>j. i \<le> j \<and> j < length t \<longrightarrow> char_int (t ! j) = expected_c e j)
      = (char_int (t ! i) = expected_c e i
         \<and> (\<forall>j. Suc i \<le> j \<and> j < length t \<longrightarrow> char_int (t ! j) = expected_c e j))"
  proof
    assume h: "\<forall>j. i \<le> j \<and> j < length t \<longrightarrow> char_int (t ! j) = expected_c e j"
    show "char_int (t ! i) = expected_c e i
         \<and> (\<forall>j. Suc i \<le> j \<and> j < length t \<longrightarrow> char_int (t ! j) = expected_c e j)"
      using h l by auto
  next
    assume h: "char_int (t ! i) = expected_c e i
         \<and> (\<forall>j. Suc i \<le> j \<and> j < length t \<longrightarrow> char_int (t ! j) = expected_c e j)"
    show "\<forall>j. i \<le> j \<and> j < length t \<longrightarrow> char_int (t ! j) = expected_c e j"
    proof (intro allI impI)
      fix j
      assume "i \<le> j \<and> j < length t"
      then show "char_int (t ! j) = expected_c e j"
        using h by (cases "j = i") auto
    qed
  qed
  have "good_loop t e i (ok, tr) = good_loop t e (Suc i) (good_step t e i (ok, tr))"
    using l by (simp add: good_loop.simps[of t e i])
  also have "good_step t e i (ok, tr)
      = ((ok \<and> char_int (t ! i) = expected_c e i), tr @ [(i, char_int (t ! i), expected_c e i)])"
    by (auto simp add: good_step_def Let_def)
  finally show ?case
    unfolding Suc.hyps(1)[OF n] u a by auto
qed

lemma good_loop_eq:
  "good_loop t e 0 (True, []) =
     ((\<forall>i<length t. char_int (t ! i) = expected_c e i),
      map (\<lambda>i. (i, char_int (t ! i), expected_c e i)) [0..<length t])"
  by (simp add: good_loop_from)

lemma char_int_eq_expected_c:
  "(char_int b = expected_c e i) = (b = (if length e \<le> i then 0 else e ! i))"
  by (simp add: char_int_def expected_c_def signed_eq_0_iff word_eq_iff_signed[where ?'a=int, symmetric])

lemma fst_good:
  "fst (good C s) =
     (\<forall>i<length (fst (authtag C s)).
        fst (authtag C s) ! i = (if length (expected_tag s) \<le> i then 0 else expected_tag s ! i))"
  by (simp add: good_def Let_def good_loop_eq authtag_fields char_int_eq_expected_c)

lemma padded_eq_iff:
  fixes t e :: bytes
  assumes "length t = n" "length e \<le> n"
  shows "(\<forall>i<n. t ! i = (if length e \<le> i then 0 else e ! i)) = (t = e @ replicate (n - length e) 0)"
proof -
  have nth: "(e @ replicate (n - length e) 0) ! i = (if length e \<le> i then 0 else e ! i)"
    if "i < n" for i
    using that by (simp add: nth_append)
  have len: "length (e @ replicate (n - length e) (0 :: byte)) = n"
    using assms by simp
  show ?thesis
    unfolding list_eq_iff_nth_eq[of t] len assms(1) using nth by simp
qed

text \<open>
  Claim C4. When \<^verbatim>\<open>authtag\<close> gives a tag of sixteen bytes, \<^verbatim>\<open>good\<close> returns true
  exactly when at every position \<open>0, \<dots>, 15\<close> the tag byte equals the expected
  tag's byte, a position at or past the end of the expected tag counting as zero.
  The result is a boolean in every case, and the session is left as \<^verbatim>\<open>authtag\<close>
  leaves it. For an expected tag of at most sixteen bytes this says that the tag is
  the expected tag followed by zero bytes.
\<close>

theorem good_iff_tag_matches:
  assumes "length (fst (authtag C s)) = BLOCK_SIZE"
  shows
    "fst (good C s) =
       (\<forall>i<BLOCK_SIZE.
          fst (authtag C s) ! i = (if length (expected_tag s) \<le> i then 0 else expected_tag s ! i))
     \<and> snd (good C s) = snd (authtag C s)
     \<and> (length (expected_tag s) \<le> BLOCK_SIZE \<longrightarrow>
          fst (good C s) =
            (fst (authtag C s) = expected_tag s @ replicate (BLOCK_SIZE - length (expected_tag s)) 0))"
proof -
  have 1: "fst (good C s) =
       (\<forall>i<BLOCK_SIZE.
          fst (authtag C s) ! i = (if length (expected_tag s) \<le> i then 0 else expected_tag s ! i))"
    using assms by (simp add: fst_good)
  have 2: "snd (good C s) = snd (authtag C s)"
    by (simp add: good_def Let_def)
  have 3: "length (expected_tag s) \<le> BLOCK_SIZE \<longrightarrow>
          fst (good C s) =
            (fst (authtag C s) = expected_tag s @ replicate (BLOCK_SIZE - length (expected_tag s)) 0)"
    unfolding 1 using padded_eq_iff[OF assms] by blast
  from 1 2 3 show ?thesis by blast
qed

theorem good_iff_tag_matches_witness:
  "fst (good demo (demo_keyed\<lparr>tag := [1, 2, 0, 0, 0, 0, 0, 0, 0, 0, 0, 0, 0, 0, 0, 0],
                               expected_tag := [1, 2]\<rparr>))
   \<and> \<not> fst (good demo (demo_keyed\<lparr>tag := [1, 2, 0, 0, 0, 0, 0, 3, 0, 0, 0, 0, 0, 0, 0, 0],
                               expected_tag := [1, 2]\<rparr>))
   \<and> \<not> fst (good demo (set_authtag [241, 243] (encrypt demo demo_keyed)))"
proof -
  let ?s1 = "demo_keyed\<lparr>tag := [1, 2, 0, 0, 0, 0, 0, 0, 0, 0, 0, 0, 0, 0, 0, 0], expected_tag := [1, 2]\<rparr>"
  let ?s2 = "demo_keyed\<lparr>tag := [1, 2, 0, 0, 0, 0, 0, 3, 0, 0, 0, 0, 0, 0, 0, 0], expected_tag := [1, 2]\<rparr>"
  let ?s3 = "set_authtag [241, 243] (encrypt demo demo_keyed)"
  have i: "state ?s1 = INIT" "state ?s2 = INIT" by (simp_all add: demo_keyed_val)
  have a1: "authtag demo ?s1 = (tag ?s1, ?s1)" and a2: "authtag demo ?s2 = (tag ?s2, ?s2)"
    using i by (simp_all add: authtag_inactive)
  have a3: "fst (authtag demo ?s3) =
     [241, 243, 245, 247, 233, 235, 237, 239, 225, 227, 229, 231, 236, 237, 238, 224]"
    unfolding demo_encrypt_val set_authtag_def by code_simp
  have l1: "length (fst (authtag demo ?s1)) = BLOCK_SIZE"
    and l2: "length (fst (authtag demo ?s2)) = BLOCK_SIZE"
    and l3: "length (fst (authtag demo ?s3)) = BLOCK_SIZE"
    by (simp_all add: a1 a2 a3)
  have e: "expected_tag ?s1 = [1, 2]" "expected_tag ?s2 = [1, 2]" "expected_tag ?s3 = [241, 243]"
    by (simp_all add: set_authtag_def)
  have r: "replicate (BLOCK_SIZE - length [1, 2 :: byte]) (0 :: byte) = [0, 0, 0, 0, 0, 0, 0, 0, 0, 0, 0, 0, 0, 0]"
    "replicate (BLOCK_SIZE - length [241, 243 :: byte]) (0 :: byte) = [0, 0, 0, 0, 0, 0, 0, 0, 0, 0, 0, 0, 0, 0]"
    by code_simp+
  have "fst (good demo ?s1)"
    using good_iff_tag_matches[OF l1, THEN conjunct2, THEN conjunct2] unfolding e a1 r
    by simp
  moreover have "\<not> fst (good demo ?s2)"
    using good_iff_tag_matches[OF l2, THEN conjunct2, THEN conjunct2] unfolding e a2 r
    by simp
  moreover have "\<not> fst (good demo ?s3)"
    using good_iff_tag_matches[OF l3, THEN conjunct2, THEN conjunct2] unfolding e a3 r
    by simp
  ultimately show ?thesis by blast
qed








subsection \<open>The loop of update\<close>

lemma increment_counter_frame [simp]:
  "ghash (increment_counter C s) = ghash s"
  "aes (increment_counter C s) = aes s"
  "authdata (increment_counter C s) = authdata s"
  "nonce (increment_counter C s) = nonce s"
  "expected_tag (increment_counter C s) = expected_tag s"
  "tag (increment_counter C s) = tag s"
  "state (increment_counter C s) = state s"
  "pos (increment_counter C s) = pos s"
  "key_stream0 (increment_counter C s) = key_stream0 s"
  "key_stream (increment_counter C s) = aes_encrypt C (aes s) (inc (counter s))"
  by (simp_all add: increment_counter_def Let_def)

lemma increment_counter_ghash_update:
  "increment_counter C (s\<lparr>ghash := g\<rparr>) = (increment_counter C s)\<lparr>ghash := g\<rparr>"
  by (simp add: increment_counter_def Let_def)

lemma increment_counter_key_stream0_update:
  "increment_counter C (s\<lparr>key_stream0 := k\<rparr>) = (increment_counter C s)\<lparr>key_stream0 := k\<rparr>"
  by (simp add: increment_counter_def Let_def)

lemma update_loop_Cons:
  "update_loop C (x # xs) dst s =
     update_loop C xs (dst @ [x XOR (key_stream s ! pos s)]) (advance C s)"
  by (simp add: advance_def Let_def)

lemma advance_frame [simp]:
  "ghash (advance C s) = ghash s"
  "aes (advance C s) = aes s"
  "authdata (advance C s) = authdata s"
  "nonce (advance C s) = nonce s"
  "expected_tag (advance C s) = expected_tag s"
  "tag (advance C s) = tag s"
  "state (advance C s) = state s"
  "key_stream0 (advance C s) = key_stream0 s"
  by (simp_all add: advance_def Let_def)

lemma advance_ghash_update: "advance C (s\<lparr>ghash := g\<rparr>) = (advance C s)\<lparr>ghash := g\<rparr>"
  by (simp add: advance_def Let_def increment_counter_def)

lemma advance_key_stream0_update:
  "advance C (s\<lparr>key_stream0 := k\<rparr>) = (advance C s)\<lparr>key_stream0 := k\<rparr>"
  by (simp add: advance_def Let_def increment_counter_def)

lemma key_stream_ghash_update: "key_stream (s\<lparr>ghash := g\<rparr>) = key_stream s"
  by simp

lemma update_loop_frame:
  "ghash (snd (update_loop C xs dst s)) = ghash s"
  "aes (snd (update_loop C xs dst s)) = aes s"
  "authdata (snd (update_loop C xs dst s)) = authdata s"
  "nonce (snd (update_loop C xs dst s)) = nonce s"
  "expected_tag (snd (update_loop C xs dst s)) = expected_tag s"
  "tag (snd (update_loop C xs dst s)) = tag s"
  "state (snd (update_loop C xs dst s)) = state s"
  "key_stream0 (snd (update_loop C xs dst s)) = key_stream0 s"
  by (induction xs arbitrary: dst s; simp add: update_loop_Cons del: update_loop.simps(2))+

lemma update_loop_dst:
  "update_loop C xs dst s = (dst @ fst (update_loop C xs [] s), snd (update_loop C xs [] s))"
proof (induction xs arbitrary: dst s)
  case Nil
  show ?case by simp
next
  case (Cons x xs)
  show ?case
    unfolding update_loop_Cons
    by (simp add: Cons[of "dst @ _"] Cons[of "[_]"])
qed

lemma update_loop_append:
  "update_loop C (xs @ ys) dst s =
     update_loop C ys (fst (update_loop C xs dst s)) (snd (update_loop C xs dst s))"
  by (induction xs arbitrary: dst s) (simp_all add: update_loop_Cons del: update_loop.simps(2))

lemma update_loop_ghash_update:
  "update_loop C xs dst (s\<lparr>ghash := g\<rparr>) =
     (fst (update_loop C xs dst s), (snd (update_loop C xs dst s))\<lparr>ghash := g\<rparr>)"
  by (induction xs arbitrary: dst s)
    (simp_all add: update_loop_Cons advance_ghash_update del: update_loop.simps(2))

lemma update_loop_key_stream0_update:
  "update_loop C xs dst (s\<lparr>key_stream0 := k\<rparr>) =
     (fst (update_loop C xs dst s), (snd (update_loop C xs dst s))\<lparr>key_stream0 := k\<rparr>)"
  by (induction xs arbitrary: dst s)
    (simp_all add: update_loop_Cons advance_key_stream0_update del: update_loop.simps(2))

lemma length_update_loop: "length (fst (update_loop C xs dst s)) = length dst + length xs"
  by (induction xs arbitrary: dst s) (simp_all add: update_loop_Cons del: update_loop.simps(2))

lemma update_empty:
  "state s = ENCRYPT \<or> state s = DECRYPT \<Longrightarrow> update_range C buf e e s = Inr ([], s)"
  by (auto simp add: update_range_def)

lemma update_eq:
  assumes "state s = ENCRYPT \<or> state s = DECRYPT" and "src \<noteq> []"
  shows "update C src s =
     Inr (fst (update_loop C src [] s),
          (snd (update_loop C src [] s))
            \<lparr>ghash := ghash_add C (if state s = DECRYPT then src else fst (update_loop C src [] s))
                        (ghash s)\<rparr>)"
  using assms
  by (auto simp add: update_def update_range_def Let_def case_prod_beta
      update_loop_ghash_update update_loop_frame)

subsection \<open>Chunks\<close>

lemma update_state:
  assumes "update C src s = Inr (out, s')"
  shows "state s' = state s"
proof (cases "src = []")
  case True
  with assms show ?thesis
    by (auto simp add: update_def update_range_def split: if_splits)
next
  case False
  from assms have a: "state s = ENCRYPT \<or> state s = DECRYPT"
    by (auto simp add: update_def update_range_def split: if_splits)
  from assms show ?thesis
    unfolding update_eq[OF a False] by (auto simp add: update_loop_frame)
qed

lemma update_Nil:
  "state s = ENCRYPT \<or> state s = DECRYPT \<Longrightarrow> update C [] s = Inr ([], s)"
  by (simp add: update_def update_empty)

lemma update_append:
  assumes a: "state s = ENCRYPT \<or> state s = DECRYPT" and g: "ghash_add_append C"
  shows "update C (xs @ ys) s =
     (case update C xs s of
        Inl e \<Rightarrow> Inl e
      | Inr (o1, s1) \<Rightarrow>
          (case update C ys s1 of
             Inl e \<Rightarrow> Inl e
           | Inr (o2, s2) \<Rightarrow> Inr (o1 @ o2, s2)))"
proof (cases "xs = []")
  case True
  show ?thesis
    unfolding True append_Nil update_Nil[OF a] by (simp split: sum.splits prod.splits)
next
  case xs: False
  define s1 where "s1 = (snd (update_loop C xs [] s))
            \<lparr>ghash := ghash_add C (if state s = DECRYPT then xs else fst (update_loop C xs [] s))
                        (ghash s)\<rparr>"
  have u1: "update C xs s = Inr (fst (update_loop C xs [] s), s1)"
    unfolding s1_def by (rule update_eq[OF a xs])
  have a1: "state s1 = ENCRYPT \<or> state s1 = DECRYPT" and st1: "state s1 = state s"
    using a by (simp_all add: s1_def update_loop_frame)
  show ?thesis
  proof (cases "ys = []")
    case True
    show ?thesis
      unfolding True append_Nil2 u1 by (simp add: update_Nil[OF a1])
  next
    case ys: False
    have l2: "update_loop C ys [] s1 =
        (fst (update_loop C ys [] (snd (update_loop C xs [] s))),
         (snd (update_loop C ys [] (snd (update_loop C xs [] s))))\<lparr>ghash := ghash s1\<rparr>)"
      unfolding s1_def by (simp add: update_loop_ghash_update)
    have whole: "update_loop C (xs @ ys) [] s =
        (fst (update_loop C xs [] s) @ fst (update_loop C ys [] (snd (update_loop C xs [] s))),
         snd (update_loop C ys [] (snd (update_loop C xs [] s))))"
      unfolding update_loop_append
      by (subst update_loop_dst) simp
    have app: "\<And>g a b. ghash_add C (a @ b) g = ghash_add C b (ghash_add C a g)"
      using g by (simp add: ghash_add_append_def)
    have gs1: "ghash s1 = ghash_add C (if state s = DECRYPT then xs else fst (update_loop C xs [] s)) (ghash s)"
      by (simp add: s1_def)
    have nn: "xs @ ys \<noteq> []" using xs by simp
    show ?thesis
      by (simp add: update_eq[OF a nn] u1 update_eq[OF a1 ys] l2 whole st1 gs1 app)
  qed
qed

lemma updates_concat:
  assumes "state s = ENCRYPT \<or> state s = DECRYPT" and "ghash_add_append C"
  shows "updates C cs s = update C (concat cs) s"
  using assms(1)
proof (induction cs arbitrary: s)
  case Nil
  then show ?case by (simp add: update_def update_empty)
next
  case (Cons c cs)
  show ?case
  proof (cases "update C c s")
    case (Inl e)
    then show ?thesis
      using update_append[OF Cons.prems assms(2), of c "concat cs"] by simp
  next
    case (Inr r)
    obtain o1 s1 where r: "r = (o1, s1)" by (cases r)
    have "state s1 = state s" using Inr r update_state by blast
    with Cons.prems have "state s1 = ENCRYPT \<or> state s1 = DECRYPT" by simp
    from Cons.IH[OF this] show ?thesis
      using update_append[OF Cons.prems assms(2), of c "concat cs"] Inr r by simp
  qed
qed

text \<open>
  Claim C3. In a session that is encrypting or decrypting, feeding a message to
  \<^verbatim>\<open>update\<close> in any sequence of chunks returns, concatenated, the bytes that one
  call on the whole message returns, and leaves the same session: the same cursor,
  counter and keystream block, the same accumulator, and so the same tag. A call on
  an empty string or an empty range returns the empty string and changes nothing.
  The accumulator is the collaborator's: the statement needs that adding two strings
  in turn is adding their concatenation.
\<close>

theorem update_chunks:
  assumes "state s = ENCRYPT \<or> state s = DECRYPT" and "ghash_add_append C"
  shows
    "updates C cs s = update C (concat cs) s
     \<and> map_sum id (\<lambda>(out, s'). (out, ghash s', fst (authtag C s'))) (updates C cs s)
         = map_sum id (\<lambda>(out, s'). (out, ghash s', fst (authtag C s'))) (update C (concat cs) s)
     \<and> update C [] s = Inr ([], s)
     \<and> update_range C buf e e s = Inr ([], s)
     \<and> update_range C buf (e + d) e s = Inr ([], s)"
proof -
  have 1: "updates C cs s = update C (concat cs) s"
    by (rule updates_concat[OF assms])
  have 2: "update C [] s = Inr ([], s)"
    using assms(1) by (simp add: update_def update_empty)
  have 3: "update_range C buf (e + d) e s = Inr ([], s)" for d
    using assms(1) by (auto simp add: update_range_def)
  from 1 2 3[of 0] 3[of d] show ?thesis by simp
qed

lemma demo_add_append: "ghash_add_append demo"
  by (simp add: ghash_add_append_def demo_sel)

lemma demo_update_val:
  "map_sum id fst (update demo [65, 66, 67] (encrypt demo demo_keyed)) = Inr [72, 73, 78]"
  unfolding demo_encrypt_val by code_simp

theorem update_chunks_witness:
  "updates demo [[65], [], [66, 67]] (encrypt demo demo_keyed)
     = update demo [65, 66, 67] (encrypt demo demo_keyed)
   \<and> map_sum id fst (updates demo [[65], [], [66, 67]] (encrypt demo demo_keyed)) = Inr [72, 73, 78]"
proof -
  have a: "state (encrypt demo demo_keyed) = ENCRYPT \<or> state (encrypt demo demo_keyed) = DECRYPT"
    by (simp add: encrypt_fields)
  from update_chunks[OF a demo_add_append, of "[[65], [], [66, 67]]" "[]" 0 0]
  have "updates demo [[65], [], [66, 67]] (encrypt demo demo_keyed)
     = update demo [65, 66, 67] (encrypt demo demo_keyed)"
    by simp
  then show ?thesis by (simp add: demo_update_val)
qed

subsection \<open>Which counter a keystream byte comes from\<close>

lemma div_mod_step:
  fixes a n :: nat
  shows "a div 16 + (a mod 16 + n) div 16 = (a + n) div 16"
proof -
  have "(a mod 16 + n + 16 * (a div 16)) div 16 = a div 16 + (a mod 16 + n) div 16"
    by (rule div_mult_self2) simp
  moreover have "a mod 16 + n + 16 * (a div 16) = a + n"
    by simp
  ultimately show ?thesis by simp
qed

lemma length_inc_pow: "length ((inc ^^ k) c) = length c"
  by (induction k) (simp_all add: increment_loop_length)

lemma be_val_inc_pow:
  "length c = BLOCK_SIZE \<Longrightarrow> be_val ((inc ^^ k) c) = (be_val c + k) mod 2 ^ 128"
proof (induction k)
  case 0
  have "be_val c < 256 ^ length c" by (rule be_val_bound)
  with 0 show ?case by simp
next
  case (Suc k)
  have "be_val ((inc ^^ Suc k) c) = (be_val ((inc ^^ k) c) + 1) mod 2 ^ 128"
    using Suc.prems by (simp add: inc_be_val length_inc_pow)
  also have "\<dots> = ((be_val c + k) mod 2 ^ 128 + 1) mod 2 ^ 128"
    using Suc by simp
  also have "\<dots> = (be_val c + k + 1) mod 2 ^ 128"
    by (rule mod_add_left_eq)
  finally show ?case by simp
qed

lemma add_mod_neq:
  fixes v k N :: nat
  assumes "v < N" "0 < k" "k < N"
  shows "(v + k) mod N \<noteq> v"
proof (cases "v + k < N")
  case True
  with assms show ?thesis by simp
next
  case False
  then have "(v + k) mod N = (v + k - N) mod N"
    by (simp add: le_mod_geq)
  also have "\<dots> = v + k - N"
    using assms by simp
  finally show ?thesis using assms False by simp
qed

lemma inc_pow_neq:
  assumes "length J0 = BLOCK_SIZE" "0 < k" "k < 2 ^ 128"
  shows "(inc ^^ k) J0 \<noteq> J0"
proof
  assume "(inc ^^ k) J0 = J0"
  then have "be_val ((inc ^^ k) J0) = be_val J0" by simp
  then have e: "(be_val J0 + k) mod 2 ^ 128 = be_val J0"
    using assms(1) by (simp add: be_val_inc_pow)
  have "be_val J0 < 256 ^ length J0" by (rule be_val_bound)
  then have "be_val J0 < 2 ^ 128" using assms(1) by simp
  from add_mod_neq[OF this assms(2,3)] e show False by simp
qed

lemma inc_pow_wraps:
  assumes "length J0 = BLOCK_SIZE"
  shows "(inc ^^ (2 ^ 128)) J0 = J0"
proof (rule be_val_inj)
  show "length ((inc ^^ (2 ^ 128)) J0) = length J0" by (rule length_inc_pow)
  have "be_val J0 < 256 ^ length J0" by (rule be_val_bound)
  then have "be_val J0 < 2 ^ 128" using assms by simp
  then show "be_val ((inc ^^ (2 ^ 128)) J0) = be_val J0"
    using assms by (simp add: be_val_inc_pow)
qed

lemma in_message_ghash_update [simp]:
  "in_message C J0 m (s\<lparr>ghash := g\<rparr>) = in_message C J0 m s"
  by (simp add: in_message_def blocks_ok_def)

lemma in_message_pos: "in_message C J0 m s \<Longrightarrow> pos s < BLOCK_SIZE"
  by (simp add: in_message_def blocks_ok_def)

lemma in_message_active: "in_message C J0 m s \<Longrightarrow> state s = ENCRYPT \<or> state s = DECRYPT"
  by (simp add: in_message_def)

lemma encrypt_in_message:
  assumes "blocks_ok s" "collab_ok C"
  shows "in_message C (counter (initial_counter C s)) 1 (encrypt C s)"
    and "in_message C (counter (initial_counter C s)) 1 (decrypt C s)"
proof -
  have l: "length (counter (initial_counter C s)) = BLOCK_SIZE"
    using assms by (simp add: length_initial_counter blocks_ok_def)
  have e: "\<And>a b. length b = BLOCK_SIZE \<Longrightarrow> length (aes_encrypt C a b) = BLOCK_SIZE"
    using assms(2) by (simp add: collab_ok_def)
  show "in_message C (counter (initial_counter C s)) 1 (encrypt C s)"
    using assms(1) l
    by (simp add: in_message_def blocks_ok_def encrypt_fields e increment_loop_length)
  show "in_message C (counter (initial_counter C s)) 1 (decrypt C s)"
    using assms(1) l
    by (simp add: in_message_def blocks_ok_def decrypt_fields encrypt_fields e increment_loop_length)
qed

lemma advance_in_message:
  assumes "collab_ok C" "in_message C J0 m s"
  shows "in_message C J0 (m + (pos s + 1) div 16) (advance C s)"
    and "pos (advance C s) = (pos s + 1) mod 16"
proof -
  have e: "\<And>a b. length b = BLOCK_SIZE \<Longrightarrow> length (aes_encrypt C a b) = BLOCK_SIZE"
    using assms(1) by (simp add: collab_ok_def)
  have p: "pos s < 16" using assms(2) by (rule in_message_pos)
  show "in_message C J0 (m + (pos s + 1) div 16) (advance C s)"
  proof (cases "pos s = 15")
    case True
    then show ?thesis
      using assms(2)
      by (simp add: in_message_def blocks_ok_def advance_def Let_def e increment_loop_length
          length_inc_pow)
  next
    case False
    with p have "pos s + 1 < 16" by simp
    then show ?thesis
      using assms(2)
      by (simp add: in_message_def blocks_ok_def advance_def Let_def e length_inc_pow)
  qed
  show "pos (advance C s) = (pos s + 1) mod 16"
    using p by (cases "pos s = 15") (simp_all add: advance_def Let_def)
qed

lemma update_loop_in_message:
  assumes "collab_ok C"
  shows "in_message C J0 m s \<Longrightarrow>
     in_message C J0 (m + (pos s + length xs) div 16) (snd (update_loop C xs dst s))
     \<and> pos (snd (update_loop C xs dst s)) = (pos s + length xs) mod 16"
proof (induction xs arbitrary: s m dst)
  case Nil
  then show ?case using in_message_pos[OF Nil] by simp
next
  case (Cons x xs)
  note a = advance_in_message[OF assms Cons.prems]
  have d: "m + (pos s + 1) div 16 + ((pos s + 1) mod 16 + length xs) div 16
      = m + (pos s + length (x # xs)) div 16"
    using div_mod_step[of "pos s + 1" "length xs"] by simp
  have r: "((pos s + 1) mod 16 + length xs) mod 16 = (pos s + length (x # xs)) mod 16"
    by (simp add: mod_add_left_eq)
  from Cons.IH[OF a(1), of "dst @ [x XOR (key_stream s ! pos s)]"]
  show ?case
    unfolding update_loop_Cons a(2) d r .
qed

lemma update_loop_output:
  assumes "collab_ok C"
  shows "in_message C J0 m s \<Longrightarrow> j < length xs \<Longrightarrow>
     fst (update_loop C xs [] s) ! j =
       xs ! j XOR aes_encrypt C (aes s) ((inc ^^ (m + (pos s + j) div 16)) J0) ! ((pos s + j) mod 16)"
proof (induction xs arbitrary: s m j)
  case Nil
  then show ?case by simp
next
  case (Cons x xs)
  note a = advance_in_message[OF assms Cons.prems(1)]
  have p: "pos s < 16" using Cons.prems(1) by (rule in_message_pos)
  have f: "fst (update_loop C (x # xs) [] s) =
      (x XOR (key_stream s ! pos s)) # fst (update_loop C xs [] (advance C s))"
    unfolding update_loop_Cons by (subst update_loop_dst) simp
  show ?case
  proof (cases j)
    case 0
    have "key_stream s = aes_encrypt C (aes s) ((inc ^^ m) J0)"
      using Cons.prems(1) by (simp add: in_message_def)
    then show ?thesis using p unfolding f 0 by simp
  next
    case (Suc j')
    then have j': "j' < length xs" using Cons.prems(2) by simp
    have d: "m + (pos s + 1) div 16 + ((pos s + 1) mod 16 + j') div 16 = m + (pos s + j) div 16"
      using div_mod_step[of "pos s + 1" j'] by (simp add: Suc)
    have r: "((pos s + 1) mod 16 + j') mod 16 = (pos s + j) mod 16"
      by (simp add: mod_add_left_eq Suc)
    from Cons.IH[OF a(1) j'] show ?thesis
      unfolding f a(2) d r Suc by simp
  qed
qed

lemma update_in_message:
  assumes "collab_ok C" "in_message C J0 m t"
  shows "\<exists>out t'. update C src t = Inr (out, t') \<and>
     in_message C J0 (m + (pos t + length src) div 16) t' \<and>
     pos t' = (pos t + length src) mod 16 \<and>
     aes t' = aes t \<and> key_stream0 t' = key_stream0 t \<and>
     length out = length src \<and>
     (\<forall>j<length src. out ! j =
        src ! j XOR aes_encrypt C (aes t) ((inc ^^ (m + (pos t + j) div 16)) J0) ! ((pos t + j) mod 16))"
proof (cases "src = []")
  case True
  have p: "pos t < 16" using assms(2) by (rule in_message_pos)
  show ?thesis
    using assms(2) p by (simp add: True update_Nil[OF in_message_active[OF assms(2)]])
next
  case False
  note u = update_eq[OF in_message_active[OF assms(2)] False]
  note i = update_loop_in_message[OF assms(1) assms(2), of src "[]"]
  show ?thesis
    unfolding u
    using i update_loop_output[OF assms(1) assms(2), of _ src]
    by (simp add: update_loop_frame length_update_loop)
qed

lemma mask_fold:
  "n \<le> length t \<Longrightarrow> n \<le> length k \<Longrightarrow>
     fold (\<lambda>i t. t[i := (t ! i) XOR (k ! i)]) [0..<n] t
       = map2 (XOR) (take n t) (take n k) @ drop n t"
proof (induction n)
  case 0
  show ?case by simp
next
  case (Suc n)
  let ?A = "map2 (XOR) (take n t) (take n k)"
  have lA: "length ?A = n" using Suc.prems by simp
  have ih: "fold (\<lambda>i t. t[i := (t ! i) XOR (k ! i)]) [0..<n] t = ?A @ drop n t"
    using Suc by simp
  have D: "drop n t = t ! n # drop (Suc n) t"
    using Suc.prems by (simp add: Cons_nth_drop_Suc)
  have T: "take (Suc n) t = take n t @ [t ! n]" "take (Suc n) k = take n k @ [k ! n]"
    using Suc.prems by (simp_all add: take_Suc_conv_app_nth)
  have "fold (\<lambda>i t. t[i := (t ! i) XOR (k ! i)]) [0..<Suc n] t
      = (?A @ drop n t)[n := ((?A @ drop n t) ! n) XOR (k ! n)]"
    by (simp add: ih)
  also have "\<dots> = ?A @ [(t ! n) XOR (k ! n)] @ drop (Suc n) t"
    using lA by (simp add: D list_update_append nth_append)
  also have "\<dots> = map2 (XOR) (take (Suc n) t) (take (Suc n) k) @ drop (Suc n) t"
    using Suc.prems by (simp add: T)
  finally show ?case .
qed

lemma mask_tag_eq: "length d \<le> length k \<Longrightarrow> mask_tag k d = map2 (XOR) d (take (length d) k)"
  using mask_fold[of "length d" d k] by (simp add: mask_tag_def)

lemma mask_tag_block:
  "length d = BLOCK_SIZE \<Longrightarrow> length k = BLOCK_SIZE \<Longrightarrow> mask_tag k d = map2 (XOR) d k"
  by (simp add: mask_tag_eq)

lemma update_key_stream0_update:
  "update C src (t\<lparr>key_stream0 := k\<rparr>) =
     map_sum id (\<lambda>(out, t'). (out, t'\<lparr>key_stream0 := k\<rparr>)) (update C src t)"
  by (simp add: update_def update_range_def Let_def case_prod_beta
      update_loop_key_stream0_update update_loop_ghash_update update_loop_frame)

lemma authtag_in_message:
  assumes "collab_ok C" "in_message C J0 m t"
  shows "fst (authtag C t) = map2 (XOR) (fst (ghash_digest C (ghash t))) (aes_encrypt C (aes t) J0)"
proof -
  have d: "length (fst (ghash_digest C (ghash t))) = BLOCK_SIZE"
    using assms(1) by (simp add: collab_ok_def)
  have "length J0 = BLOCK_SIZE"
    using assms(2) by (simp add: in_message_def)
  then have k: "length (aes_encrypt C (aes t) J0) = BLOCK_SIZE"
    using assms(1) by (simp add: collab_ok_def)
  have k2: "key_stream0 t = aes_encrypt C (aes t) J0"
    using assms(2) by (simp add: in_message_def)
  show ?thesis
    using mask_tag_block[OF d k]
    by (simp add: authtag_active[OF in_message_active[OF assms(2)]] k2)
qed

lemma updates_in_message:
  assumes "collab_ok C"
  shows "in_message C J0 m t \<Longrightarrow>
     \<exists>out t'. updates C cs t = Inr (out, t') \<and>
       in_message C J0 (m + (pos t + length (concat cs)) div 16) t' \<and>
       pos t' = (pos t + length (concat cs)) mod 16 \<and>
       aes t' = aes t \<and> key_stream0 t' = key_stream0 t \<and>
       length out = length (concat cs) \<and>
       (\<forall>j<length (concat cs). out ! j =
          concat cs ! j XOR
          aes_encrypt C (aes t) ((inc ^^ (m + (pos t + j) div 16)) J0) ! ((pos t + j) mod 16))"
proof (induction cs arbitrary: t m)
  case Nil
  then show ?case using in_message_pos[OF Nil] by simp
next
  case (Cons c cs)
  from update_in_message[OF assms Cons.prems, of c]
  obtain o1 t1 where u: "update C c t = Inr (o1, t1)"
    and i1: "in_message C J0 (m + (pos t + length c) div 16) t1"
    and p1: "pos t1 = (pos t + length c) mod 16"
    and a1: "aes t1 = aes t" and k1: "key_stream0 t1 = key_stream0 t"
    and l1: "length o1 = length c"
    and b1: "\<forall>j<length c. o1 ! j =
        c ! j XOR aes_encrypt C (aes t) ((inc ^^ (m + (pos t + j) div 16)) J0) ! ((pos t + j) mod 16)"
    by blast
  from Cons.IH[OF i1]
  obtain o2 t2 where us: "updates C cs t1 = Inr (o2, t2)"
    and i2: "in_message C J0 (m + (pos t + length c) div 16 + (pos t1 + length (concat cs)) div 16) t2"
    and p2: "pos t2 = (pos t1 + length (concat cs)) mod 16"
    and a2: "aes t2 = aes t1" and k2: "key_stream0 t2 = key_stream0 t1"
    and l2: "length o2 = length (concat cs)"
    and b2: "\<forall>j<length (concat cs). o2 ! j =
        concat cs ! j XOR
        aes_encrypt C (aes t1)
          ((inc ^^ (m + (pos t + length c) div 16 + (pos t1 + j) div 16)) J0) ! ((pos t1 + j) mod 16)"
    by blast
  have d: "m + (pos t + length c) div 16 + ((pos t + length c) mod 16 + n) div 16
      = m + (pos t + (length c + n)) div 16" for n
    using div_mod_step[of "pos t + length c" n] by (simp add: add.assoc)
  have r: "((pos t + length c) mod 16 + n) mod 16 = (pos t + (length c + n)) mod 16" for n
    by (simp add: mod_add_left_eq add.assoc)
  have w: "updates C (c # cs) t = Inr (o1 @ o2, t2)"
    by (simp add: u us)
  have bytes: "(o1 @ o2) ! j =
      concat (c # cs) ! j XOR
      aes_encrypt C (aes t) ((inc ^^ (m + (pos t + j) div 16)) J0) ! ((pos t + j) mod 16)"
    if j: "j < length (concat (c # cs))" for j
  proof (cases "j < length c")
    case True
    then show ?thesis using b1 l1 by (simp add: nth_append)
  next
    case False
    define n where "n = j - length c"
    have n: "n < length (concat cs)" and jn: "j = length c + n"
      using False j by (simp_all add: n_def)
    have "(o1 @ o2) ! j = o2 ! n"
      using False l1 by (simp add: nth_append n_def)
    also have "\<dots> = concat cs ! n XOR
        aes_encrypt C (aes t) ((inc ^^ (m + (pos t + j) div 16)) J0) ! ((pos t + j) mod 16)"
      using b2[rule_format, OF n] unfolding p1 d r a1 jn .
    also have "concat cs ! n = concat (c # cs) ! j"
      using False by (simp add: nth_append n_def)
    finally show ?thesis .
  qed
  have "in_message C J0 (m + (pos t + length (concat (c # cs))) div 16) t2"
    using i2 unfolding p1 d by simp
  moreover have "pos t2 = (pos t + length (concat (c # cs))) mod 16"
    using p2 unfolding p1 r by simp
  moreover have "length (o1 @ o2) = length (concat (c # cs))"
    using l1 l2 by simp
  ultimately show ?case
    using w bytes a1 a2 k1 k2 by auto
qed

lemma updates_key_stream0_update:
  "updates C cs (t\<lparr>key_stream0 := k\<rparr>) =
     map_sum id (\<lambda>(out, t'). (out, t'\<lparr>key_stream0 := k\<rparr>)) (updates C cs t)"
proof (induction cs arbitrary: t)
  case Nil
  show ?case by simp
next
  case (Cons c cs)
  show ?case
  proof (cases "update C c t")
    case (Inl e)
    then show ?thesis by (simp add: update_key_stream0_update)
  next
    case (Inr r)
    obtain o1 t1 where r: "r = (o1, t1)" by (cases r)
    show ?thesis
      by (cases "updates C cs t1") (auto simp add: update_key_stream0_update Inr r Cons)
  qed
qed

lemma short_message_counter:
  assumes "length J0 = BLOCK_SIZE" and "p < BLOCK_SIZE" and "j < (2 :: nat) ^ 64"
  shows "(inc ^^ (1 + (p + j) div 16)) J0 \<noteq> J0"
proof (rule inc_pow_neq[OF assms(1)])
  show "0 < 1 + (p + j) div 16" by simp
  have "(p + j) div 16 \<le> p + j" by (rule div_le_dividend)
  also have "\<dots> < 16 + 2 ^ 64" using assms(2,3) by simp
  finally have "1 + (p + j) div 16 < 17 + (2 :: nat) ^ 64" by simp
  also have "\<dots> < 2 ^ 128" by simp
  finally show "1 + (p + j) div 16 < 2 ^ 128" .
qed

text \<open>
  Claim C5. For a message of fewer than \<open>2 ^ 64\<close> bytes, fed to \<^verbatim>\<open>update\<close> in any
  chunks after \<^verbatim>\<open>encrypt\<close> or \<^verbatim>\<open>decrypt\<close>: the entry computes the mask block as the
  encryption of \<open>J0\<close>; the calls of \<^verbatim>\<open>update\<close> leave it as it is and return bytes
  that do not depend on it; byte \<open>j\<close> of the message is XORed with a byte of the
  encryption of the counter \<open>J0\<close> incremented \<open>1 + (pos + j) div 16\<close> times, \<open>pos\<close>
  being the cursor at entry, and that counter is not \<open>J0\<close>; \<^verbatim>\<open>authtag\<close> is where the
  mask block is used, the tag being the digest XORed with it. The bound is on the
  length a run can count; the counter itself returns to \<open>J0\<close> only after \<open>2 ^ 128\<close>
  increments (\<open>inc_pow_wraps\<close>).
\<close>

theorem mask_block_reserved:
  assumes "collab_ok C" and "blocks_ok s"
    and "s1 = encrypt C s \<or> s1 = decrypt C s"
    and "length (concat cs) < 2 ^ 64"
  shows
    "(let J0 = counter (initial_counter C s);
          mask = aes_encrypt C (aes s) J0
      in key_stream0 s1 = mask \<and>
         (case updates C cs s1 of
            Inl e \<Rightarrow> False
          | Inr (out, t) \<Rightarrow>
              key_stream0 t = mask \<and>
              length out = length (concat cs) \<and>
              (\<forall>j<length (concat cs).
                 out ! j =
                   concat cs ! j XOR
                   aes_encrypt C (aes s) ((inc ^^ (1 + (pos s + j) div BLOCK_SIZE)) J0)
                     ! ((pos s + j) mod BLOCK_SIZE)
                 \<and> (inc ^^ (1 + (pos s + j) div BLOCK_SIZE)) J0 \<noteq> J0) \<and>
              fst (authtag C t) = map2 (XOR) (fst (ghash_digest C (ghash t))) mask \<and>
              key_stream0 (snd (authtag C t)) = mask) \<and>
         updates C cs (s1\<lparr>key_stream0 := k\<rparr>) =
           map_sum id (\<lambda>(out, t). (out, t\<lparr>key_stream0 := k\<rparr>)) (updates C cs s1))"
proof -
  define J0 where "J0 = counter (initial_counter C s)"
  have i1: "in_message C J0 1 s1"
    using encrypt_in_message[OF assms(2,1)] assms(3) by (auto simp add: J0_def)
  have f: "pos s1 = pos s" "aes s1 = aes s"
    using assms(3) by (auto simp add: encrypt_fields decrypt_fields)
  have lJ: "length J0 = BLOCK_SIZE" and k1: "key_stream0 s1 = aes_encrypt C (aes s) J0"
    using i1 by (simp_all add: in_message_def f)
  have p: "pos s < BLOCK_SIZE" using assms(2) by (simp add: blocks_ok_def)
  from updates_in_message[OF assms(1) i1, of cs]
  obtain out t where u: "updates C cs s1 = Inr (out, t)"
    and it: "in_message C J0 (1 + (pos s1 + length (concat cs)) div 16) t"
    and at: "aes t = aes s1" and kt: "key_stream0 t = key_stream0 s1"
    and l: "length out = length (concat cs)"
    and b: "\<forall>j<length (concat cs). out ! j =
        concat cs ! j XOR
        aes_encrypt C (aes s1) ((inc ^^ (1 + (pos s1 + j) div 16)) J0) ! ((pos s1 + j) mod 16)"
    by blast
  have ne: "(inc ^^ (1 + (pos s + j) div 16)) J0 \<noteq> J0" if "j < length (concat cs)" for j
  proof -
    from that assms(4) have "j < 2 ^ 64" by simp
    from short_message_counter[OF lJ p this] show ?thesis .
  qed
  have tg: "fst (authtag C t) = map2 (XOR) (fst (ghash_digest C (ghash t))) (aes_encrypt C (aes s) J0)"
    using authtag_in_message[OF assms(1) it] by (simp add: at f)
  have kt': "key_stream0 (snd (authtag C t)) = aes_encrypt C (aes s) J0"
    by (simp add: authtag_fields kt k1)
  show ?thesis
    unfolding Let_def J0_def[symmetric] u
    using k1 kt l b ne tg kt'
    by (simp add: f updates_key_stream0_update u)
qed

lemma demo_J0: "counter (initial_counter demo demo_keyed) = [1, 2, 3, 4, 5, 6, 7, 8, 9, 10, 11, 12, 0, 0, 0, 1]"
proof -
  have "length (counter demo_keyed) = BLOCK_SIZE"
    using demo_keyed_blocks by (simp add: blocks_ok_def)
  from counter_initial_counter[OF this demo_collab_ok] show ?thesis
    by (simp add: demo_keyed_val)
qed

theorem mask_block_reserved_witness:
  "key_stream0 (encrypt demo demo_keyed)
     = demo_encrypt 7 [1, 2, 3, 4, 5, 6, 7, 8, 9, 10, 11, 12, 0, 0, 0, 1]
   \<and> (case updates demo [[65], [66, 67]] (encrypt demo demo_keyed) of
         Inl e \<Rightarrow> False
       | Inr (out, t) \<Rightarrow>
           out = [72, 73, 78] \<and>
           key_stream0 t = demo_encrypt 7 [1, 2, 3, 4, 5, 6, 7, 8, 9, 10, 11, 12, 0, 0, 0, 1] \<and>
           fst (authtag demo t) =
             map2 (XOR) (fst (ghash_digest demo (ghash t)))
               (demo_encrypt 7 [1, 2, 3, 4, 5, 6, 7, 8, 9, 10, 11, 12, 0, 0, 0, 1]))"
proof -
  let ?t = "encrypt demo demo_keyed"
  have n: "length (concat [[65], [66, 67 :: byte]]) < 2 ^ 64" by simp
  have a: "state ?t = ENCRYPT \<or> state ?t = DECRYPT" by (simp add: encrypt_fields)
  have o: "map_sum id fst (updates demo [[65], [66, 67]] ?t) = Inr [72, 73, 78]"
    using updates_concat[OF a demo_add_append, of "[[65], [66, 67]]"] demo_update_val by simp
  have f: "aes demo_keyed = 7" by (simp add: demo_keyed_val)
  from mask_block_reserved[OF demo_collab_ok demo_keyed_blocks _ n, of ?t "[]"] o
  show ?thesis
    by (auto simp add: Let_def demo_J0 demo_sel f split: sum.splits)
qed

subsection \<open>Two messages on one object\<close>

lemma update_frame:
  assumes "update C src t = Inr (out, t')"
  shows "nonce t' = nonce t" "authdata t' = authdata t" "expected_tag t' = expected_tag t"
    "tag t' = tag t" "state t' = state t"
proof -
  have "nonce t' = nonce t \<and> authdata t' = authdata t \<and> expected_tag t' = expected_tag t
      \<and> tag t' = tag t \<and> state t' = state t"
  proof (cases "src = []")
    case True
    with assms show ?thesis
      by (auto simp add: update_def update_range_def split: if_splits)
  next
    case False
    from assms have a: "state t = ENCRYPT \<or> state t = DECRYPT"
      by (auto simp add: update_def update_range_def split: if_splits)
    from assms show ?thesis
      unfolding update_eq[OF a False] by (auto simp add: update_loop_frame)
  qed
  then show "nonce t' = nonce t" "authdata t' = authdata t" "expected_tag t' = expected_tag t"
    "tag t' = tag t" "state t' = state t"
    by simp_all
qed

lemma in_message_blocks: "in_message C J0 m s \<Longrightarrow> blocks_ok s"
  by (simp add: in_message_def)

lemma update_one_byte:
  assumes c: "collab_ok C" and i: "in_message C J0 1 t" and p: "pos t < 15"
  obtains t' where "update C [x] t = Inr ([x XOR aes_encrypt C (aes t) (inc J0) ! pos t], t')"
    and "in_message C J0 1 t'" and "pos t' = pos t + 1" and "aes t' = aes t"
    and "nonce t' = nonce t"
proof -
  from update_in_message[OF c i, of "[x]"]
  obtain out t' where u: "update C [x] t = Inr (out, t')"
    and i': "in_message C J0 (1 + (pos t + length [x]) div 16) t'"
    and p': "pos t' = (pos t + length [x]) mod 16"
    and a': "aes t' = aes t"
    and l: "length out = length [x]"
    and o: "\<forall>j<length [x]. out ! j =
        [x] ! j XOR aes_encrypt C (aes t) ((inc ^^ (1 + (pos t + j) div 16)) J0) ! ((pos t + j) mod 16)"
    by blast
  have "out ! 0 = x XOR aes_encrypt C (aes t) (inc J0) ! pos t"
    using o p by simp
  moreover from l obtain y where "out = [y]"
    by (cases out) auto
  ultimately have out: "out = [x XOR aes_encrypt C (aes t) (inc J0) ! pos t]"
    by simp
  have 1: "in_message C J0 1 t'" using i' p by simp
  have 2: "pos t' = pos t + 1" using p' p by simp
  from that[OF u[unfolded out] 1 2 a' update_frame(1)[OF u]] show thesis .
qed

lemma xor_twice_id: "(p XOR a XOR b = p) = (a = b)" for p a b :: byte
proof
  assume h: "p XOR a XOR b = p"
  have "a XOR b = p XOR (p XOR (a XOR b))" by (simp only: bit.xor_left_self)
  also have "\<dots> = p XOR p" using h by (simp add: xor.assoc)
  finally have z: "a XOR b = 0" by simp
  have "b = a XOR (a XOR b)" by (simp only: bit.xor_left_self)
  with z show "a = b" by simp
next
  assume "a = b"
  then show "p XOR a XOR b = p" by (simp add: xor.assoc)
qed

lemma J0_nonce12:
  "length (counter s) = BLOCK_SIZE \<Longrightarrow> length (nonce s) = 12 \<Longrightarrow>
     counter (initial_counter C s) = nonce s @ [0, 0, 0, 1]"
  by (simp add: initial_counter_def std_copy_nonce12)

lemma authtag_blocks: "blocks_ok s \<Longrightarrow> blocks_ok (snd (authtag C s))"
  by (simp add: blocks_ok_def authtag_fields)

text \<open>
  Claim C1 says that decrypting what a session has encrypted gives back the
  plaintext. \<^verbatim>\<open>encrypt\<close> and \<^verbatim>\<open>decrypt\<close> do not set the cursor, which only
  \<^verbatim>\<open>clear\<close> and the end of a block do: run on the object that has just encrypted
  one byte, the decrypting session starts one byte into the first keystream block
  \<open>k\<close>, and returns the plaintext byte XORed with two neighbouring bytes of \<open>k\<close>.
  The plaintext comes back only if those two bytes are equal.
\<close>

theorem round_trip_same_object:
  assumes "blocks_ok s" and "collab_ok C" and "length (nonce s) = 12" and "pos s < 15"
  shows
    "(let k = aes_encrypt C (aes s) (inc (nonce s @ [0, 0, 0, 1]))
      in map_sum id fst (round_trip C [p] s) = Inr [p XOR k ! pos s XOR k ! (pos s + 1)]
         \<and> (map_sum id fst (round_trip C [p] s) = Inr [p]) = (k ! pos s = k ! (pos s + 1)))"
proof -
  define J0 where "J0 = nonce s @ [0, 0, 0, 1]"
  define k where "k = aes_encrypt C (aes s) (inc J0)"
  have cs: "length (counter s) = BLOCK_SIZE" using assms(1) by (simp add: blocks_ok_def)
  have J: "counter (initial_counter C s) = J0"
    unfolding J0_def by (rule J0_nonce12[OF cs assms(3)])
  have i1: "in_message C J0 1 (encrypt C s)"
    using encrypt_in_message(1)[OF assms(1,2)] by (simp add: J)
  have p1: "pos (encrypt C s) < 15" "pos (encrypt C s) = pos s" "aes (encrypt C s) = aes s"
    "nonce (encrypt C s) = nonce s"
    using assms(4) by (simp_all add: encrypt_fields)
  from update_one_byte[OF assms(2) i1 p1(1), of p]
  obtain s2 where u1: "update C [p] (encrypt C s) = Inr ([p XOR k ! pos s], s2)"
    and i2: "in_message C J0 1 s2" and p2: "pos s2 = pos s + 1" and a2: "aes s2 = aes s"
    and n2: "nonce s2 = nonce s"
    unfolding p1 k_def by blast
  define t where "t = fst (authtag C s2)"
  define s3 where "s3 = set_authtag t (snd (authtag C s2))"
  have e: "encrypt_session C [p] s = Inr ([p XOR k ! pos s], t, snd (authtag C s2))"
    by (simp add: encrypt_session_def u1 t_def case_prod_beta)
  have b3: "blocks_ok s3" and n3: "length (nonce s3) = 12" "nonce s3 = nonce s"
    and p3: "pos s3 = pos s + 1" and a3: "aes s3 = aes s"
    using in_message_blocks[OF i2] assms(3)
    by (simp_all add: s3_def set_authtag_def blocks_ok_def authtag_fields n2 p2 a2)
  have c3: "length (counter s3) = BLOCK_SIZE" using b3 by (simp add: blocks_ok_def)
  have J3: "counter (initial_counter C s3) = J0"
    unfolding J0_def using J0_nonce12[OF c3 n3(1), of C] by (simp add: n3(2))
  have i4: "in_message C J0 1 (decrypt C s3)"
    using encrypt_in_message(2)[OF b3 assms(2)] by (simp add: J3)
  have p4: "pos (decrypt C s3) < 15 \<or> pos (decrypt C s3) = 15"
    "pos (decrypt C s3) = pos s + 1" "aes (decrypt C s3) = aes s"
    using assms(4) by (auto simp add: decrypt_fields p3 a3)
  from update_in_message[OF assms(2) i4, of "[p XOR k ! pos s]"]
  obtain out s5 where u2: "update C [p XOR k ! pos s] (decrypt C s3) = Inr (out, s5)"
    and l: "length out = length [p XOR k ! pos s]"
    and o: "\<forall>j<length [p XOR k ! pos s]. out ! j =
        [p XOR k ! pos s] ! j XOR
          aes_encrypt C (aes (decrypt C s3))
            ((inc ^^ (1 + (pos (decrypt C s3) + j) div 16)) J0) ! ((pos (decrypt C s3) + j) mod 16)"
    by blast
  have "out ! 0 = p XOR k ! pos s XOR k ! (pos s + 1)"
    using o assms(4) by (simp add: p4 k_def xor.assoc)
  moreover from l obtain y where "out = [y]"
    by (cases out) auto
  ultimately have out: "out = [p XOR k ! pos s XOR k ! (pos s + 1)]"
    by simp
  have d: "map_sum id fst (decrypt_session C [p XOR k ! pos s] t (snd (authtag C s2)))
      = Inr [p XOR k ! pos s XOR k ! (pos s + 1)]"
    using u2 by (simp add: decrypt_session_def s3_def[symmetric] out case_prod_beta)
  have r: "map_sum id fst (round_trip C [p] s) = Inr [p XOR k ! pos s XOR k ! (pos s + 1)]"
    using d
    by (cases "decrypt_session C [p XOR k ! pos s] t (snd (authtag C s2))")
      (auto simp add: round_trip_def e)
  show ?thesis
    unfolding Let_def k_def[unfolded J0_def, symmetric] r
    by (simp add: xor_twice_id)
qed

lemma demo_inc_J0:
  "inc [1, 2, 3, 4, 5, 6, 7, 8, 9, 10, 11, 12, 0, 0, 0, 1] = [1, 2, 3, 4, 5, 6, 7, 8, 9, 10, 11, 12, 0, 0, 0, 2]"
  by code_simp

lemma demo_block1:
  "demo_encrypt 7 [1, 2, 3, 4, 5, 6, 7, 8, 9, 10, 11, 12, 0, 0, 0, 2]
     = [9, 11, 13, 15, 17, 19, 21, 23, 25, 27, 29, 31, 20, 21, 22, 25]"
  by code_simp

lemma demo_round_trip_val: "round_trip demo [65] demo_keyed = Inr ([67], True)"
proof -
  let ?g = "[8, 9, 10, 11, 12, 13, 14, 15, 16, 17, 18, 19, 20, 21, 22, 23] :: bytes"
  let ?n = "[1, 2, 3, 4, 5, 6, 7, 8, 9, 10, 11, 12] :: bytes"
  let ?c = "[1, 2, 3, 4, 5, 6, 7, 8, 9, 10, 11, 12, 0, 0, 0, 2] :: bytes"
  let ?mk = "[9, 11, 13, 15, 17, 19, 21, 23, 25, 27, 29, 31, 20, 21, 22, 24] :: bytes"
  let ?k = "[9, 11, 13, 15, 17, 19, 21, 23, 25, 27, 29, 31, 20, 21, 22, 25] :: bytes"
  let ?t = "[73, 75, 77, 79, 81, 83, 85, 87, 89, 91, 93, 95, 84, 85, 86, 88] :: bytes"
  let ?sa = "\<lparr>ghash = (?g, [], [72]), aes = 7, authdata = [], nonce = ?n, expected_tag = [],
      tag = [], state = ENCRYPT, pos = 1, counter = ?c, key_stream0 = ?mk, key_stream = ?k\<rparr>
      :: (byte, bytes \<times> bytes \<times> bytes) AES_GCM"
  let ?sb = "\<lparr>ghash = (?g, [], [72]), aes = 7, authdata = [], nonce = ?n, expected_tag = [],
      tag = ?t, state = FINAL, pos = 1, counter = ?c, key_stream0 = ?mk, key_stream = ?k\<rparr>
      :: (byte, bytes \<times> bytes \<times> bytes) AES_GCM"
  let ?sc = "\<lparr>ghash = (?g, [], []), aes = 7, authdata = [], nonce = ?n, expected_tag = ?t,
      tag = [], state = DECRYPT, pos = 1, counter = ?c, key_stream0 = ?mk, key_stream = ?k\<rparr>
      :: (byte, bytes \<times> bytes \<times> bytes) AES_GCM"
  let ?sd = "\<lparr>ghash = (?g, [], [72]), aes = 7, authdata = [], nonce = ?n, expected_tag = ?t,
      tag = [], state = DECRYPT, pos = 2, counter = ?c, key_stream0 = ?mk, key_stream = ?k\<rparr>
      :: (byte, bytes \<times> bytes \<times> bytes) AES_GCM"
  let ?se = "\<lparr>ghash = (?g, [], [72]), aes = 7, authdata = [], nonce = ?n, expected_tag = ?t,
      tag = ?t, state = FINAL, pos = 2, counter = ?c, key_stream0 = ?mk, key_stream = ?k\<rparr>
      :: (byte, bytes \<times> bytes \<times> bytes) AES_GCM"
  have 1: "update demo [65] (encrypt demo demo_keyed) = Inr ([72], ?sa)"
    unfolding demo_encrypt_val
    by (simp add: update_def update_range_def demo_sel Let_def)
  have m: "mask_tag ?mk (replicate BLOCK_SIZE 320) = ?t"
    by code_simp
  have 2: "authtag demo ?sa = (?t, ?sb)"
    by (simp add: authtag_def demo_sel demo_digest_def m Let_def)
  have i: "inc [1, 2, 3, 4, 5, 6, 7, 8, 9, 10, 11, 12, 0, 0, 0, 1] = ?c"
    by code_simp
  have e0: "demo_encrypt 7 [1, 2, 3, 4, 5, 6, 7, 8, 9, 10, 11, 12, 0, 0, 0, 1] = ?mk"
    and e1: "demo_encrypt 7 ?c = ?k"
    by code_simp+
  have 3: "decrypt demo (set_authtag ?t ?sb) = ?sc"
    by (simp add: decrypt_def encrypt_def reset_counter_def initial_counter_def
        increment_counter_def set_authtag_def std_copy_def demo_sel Let_def i e0 e1)
  have 4: "update demo [72] ?sc = Inr ([67], ?sd)"
    by (simp add: update_def update_range_def demo_sel Let_def)
  have gl: "fst (good_loop ?t ?t 0 (True, []))"
    by (simp add: good_loop_eq expected_c_def)
  have 5: "good demo ?sd = (True, ?se)"
    by (simp add: good_def authtag_def demo_sel demo_digest_def m gl Let_def)
  show ?thesis
    unfolding round_trip_def encrypt_session_def decrypt_session_def 1 2 3 4 5
      sum.case prod.case Let_def
    by (rule refl)
qed

theorem round_trip_same_object_witness:
  "round_trip demo [65] demo_keyed = Inr ([67], True)
   \<and> map_sum id fst (round_trip demo [65] demo_keyed) \<noteq> Inr [65]"
proof -
  have n: "length (nonce demo_keyed) = 12" and p: "pos demo_keyed < 15"
    by (simp_all add: demo_keyed_val)
  have f: "nonce demo_keyed = [1, 2, 3, 4, 5, 6, 7, 8, 9, 10, 11, 12]" "aes demo_keyed = 7"
    "pos demo_keyed = 0"
    by (simp_all add: demo_keyed_val)
  from round_trip_same_object[OF demo_keyed_blocks demo_collab_ok n p, of 65]
  have "map_sum id fst (round_trip demo [65] demo_keyed) \<noteq> Inr [65]"
    by (simp add: Let_def f demo_sel demo_inc_J0 demo_block1)
  with demo_round_trip_val show ?thesis by simp
qed

subsection \<open>Two objects with the cursor at the same place\<close>

text \<open>
  What does hold of a round trip: when the decrypting object has the key, the
  accumulator, the nonce, the associated data and the cursor of the encrypting one,
  it returns the plaintext and \<^verbatim>\<open>good\<close> returns true.
\<close>

lemma good_loop_same: "fst (good_loop t t 0 (True, []))"
  by (simp add: good_loop_eq expected_c_def)

lemma round_trip_two_objects:
  assumes b: "blocks_ok se" "blocks_ok sd" and c: "collab_ok C"
    and same: "aes sd = aes se" "ghash sd = ghash se" "nonce sd = nonce se"
      "authdata sd = authdata se" "pos sd = pos se"
  shows "\<exists>ct t se' sd'. encrypt_session C P se = Inr (ct, t, se')
           \<and> decrypt_session C ct t sd = Inr (P, True, sd')"
proof -
  define J0 where "J0 = counter (initial_counter C se)"
  have le: "length (counter se) = BLOCK_SIZE" and ld: "length (counter sd) = BLOCK_SIZE"
    using b by (simp_all add: blocks_ok_def)
  have Jd: "counter (initial_counter C (set_authtag t0 sd)) = J0" for t0
    using ld le c same
    by (simp add: J0_def counter_initial_counter set_authtag_def)
  have gd: "ghash (decrypt C (set_authtag t0 sd)) = ghash (encrypt C se)" for t0
    using same
    by (simp add: decrypt_fields encrypt_def reset_counter_def initial_counter_def
        set_authtag_def Let_def case_prod_beta)
  have ie: "in_message C J0 1 (encrypt C se)"
    unfolding J0_def by (rule encrypt_in_message(1)[OF b(1) c])
  have bd: "blocks_ok (set_authtag t0 sd)" for t0
    using b(2) by (simp add: blocks_ok_def set_authtag_def)
  have id: "in_message C J0 1 (decrypt C (set_authtag t0 sd))" for t0
    using encrypt_in_message(2)[OF bd c, of t0] by (simp add: Jd)
  have pe: "pos (encrypt C se) = pos se" "aes (encrypt C se) = aes se"
    by (simp_all add: encrypt_fields)
  have pd: "pos (decrypt C (set_authtag t0 sd)) = pos se"
    "aes (decrypt C (set_authtag t0 sd)) = aes se"
    "expected_tag (decrypt C (set_authtag t0 sd)) = t0" for t0
    using same by (simp_all add: decrypt_fields set_authtag_def)
  have k0: "key_stream0 (decrypt C (set_authtag t0 sd)) = key_stream0 (encrypt C se)" for t0
    using ie id[of t0] by (simp add: in_message_def pe pd)
  \<comment> \<open>the ciphertext\<close>
  define ct where "ct = fst (update_loop C P [] (encrypt C se))"
  have lct: "length ct = length P" by (simp add: ct_def length_update_loop)
  have oe: "ct ! j = P ! j XOR aes_encrypt C (aes se) ((inc ^^ (1 + (pos se + j) div 16)) J0)
      ! ((pos se + j) mod 16)" if "j < length P" for j
    using update_loop_output[OF c ie that] by (simp add: ct_def pe)
  have od: "fst (update_loop C ct [] (decrypt C (set_authtag t0 sd))) = P" for t0
  proof (rule nth_equalityI)
    show "length (fst (update_loop C ct [] (decrypt C (set_authtag t0 sd)))) = length P"
      by (simp add: length_update_loop lct)
    fix j assume "j < length (fst (update_loop C ct [] (decrypt C (set_authtag t0 sd))))"
    then have j: "j < length P" by (simp add: length_update_loop lct)
    then have jc: "j < length ct" by (simp add: lct)
    show "fst (update_loop C ct [] (decrypt C (set_authtag t0 sd))) ! j = P ! j"
      using update_loop_output[OF c id jc, of t0] oe[OF j]
      by (simp add: pd xor.assoc)
  qed
  \<comment> \<open>the two sessions after \<open>update\<close>\<close>
  define se1 where "se1 =
      (if P = [] then encrypt C se
       else (snd (update_loop C P [] (encrypt C se)))\<lparr>ghash := ghash_add C ct (ghash (encrypt C se))\<rparr>)"
  have acte: "state (encrypt C se) = ENCRYPT \<or> state (encrypt C se) = DECRYPT"
    by (simp add: encrypt_fields)
  have ue: "update C P (encrypt C se) = Inr (ct, se1)"
  proof (cases "P = []")
    case True
    then show ?thesis by (simp add: update_Nil[OF acte] ct_def se1_def)
  next
    case False
    show ?thesis
      unfolding update_eq[OF acte False] using False
      by (simp add: se1_def ct_def encrypt_fields)
  qed
  have ge: "ghash se1 = (if P = [] then ghash (encrypt C se) else ghash_add C ct (ghash (encrypt C se)))"
    and ke: "key_stream0 se1 = key_stream0 (encrypt C se)"
    and ae: "state se1 = ENCRYPT"
    by (simp_all add: se1_def update_loop_frame encrypt_fields)
  have sdst: "state (decrypt C (set_authtag t0 sd)) = DECRYPT" for t0
    by (simp add: decrypt_fields)
  have "\<exists>sd1. update C ct (decrypt C (set_authtag t0 sd)) = Inr (P, sd1)
      \<and> ghash sd1 = ghash se1 \<and> key_stream0 sd1 = key_stream0 se1 \<and> state sd1 = DECRYPT
      \<and> expected_tag sd1 = t0" for t0
  proof (cases "P = []")
    case True
    then have "ct = []" using lct by simp
    then show ?thesis
      using True by (simp add: update_Nil sdst ge gd k0 ke pd)
  next
    case False
    then have n: "ct \<noteq> []" using lct by auto
    have a: "state (decrypt C (set_authtag t0 sd)) = ENCRYPT \<or> state (decrypt C (set_authtag t0 sd)) = DECRYPT"
      by (simp add: sdst)
    show ?thesis
      unfolding update_eq[OF a n] od
      using False by (simp add: update_loop_frame sdst ge gd k0 ke pd)
  qed
  then obtain sd1 where ud: "update C ct (decrypt C (set_authtag (fst (authtag C se1)) sd)) = Inr (P, sd1)"
    and gd1: "ghash sd1 = ghash se1" and kd1: "key_stream0 sd1 = key_stream0 se1"
    and ad1: "state sd1 = DECRYPT" and ed1: "expected_tag sd1 = fst (authtag C se1)"
    by blast
  have t: "fst (authtag C sd1) = fst (authtag C se1)"
    by (simp add: authtag_active ae ad1 gd1 kd1)
  have g: "fst (good C sd1)"
    by (simp add: good_def Let_def authtag_fields t ed1 good_loop_same)
  have "encrypt_session C P se = Inr (ct, fst (authtag C se1), snd (authtag C se1))"
    by (simp add: encrypt_session_def ue case_prod_beta)
  moreover have "decrypt_session C ct (fst (authtag C se1)) sd = Inr (P, True, snd (good C sd1))"
    using g by (cases "good C sd1") (simp add: decrypt_session_def ud)
  ultimately show ?thesis by blast
qed

end
